theory Spec2Isabelle
  imports Complex_Main
begin

section \<open>Streaming transmitter (StreamThroughTransmitter)\<close>

subsection \<open>Data model\<close>

text \<open>
  Rates are C++ doubles wrapped in the unit type \<open>bps\<close>; the code uses the value NaN as the
  "unset" sentinel and relies on every comparison with NaN being false. A rate is therefore
  either \<open>NaN\<close> or a finite value, and the finite doubles are taken as the real numbers they
  denote. Simulation and clock times are real numbers. Bit positions and lengths (unit type
  \<open>b\<close>) are integers. Where the code rounds a product down to a bit count, the product is
  the double precision product (see \<open>toBits\<close> below); the time of the underrun timer is
  computed without rounding.
\<close>

datatype dbl = NaN | Fin real

fun dbl_less :: "dbl \<Rightarrow> dbl \<Rightarrow> bool" where
  "dbl_less (Fin a) (Fin b) = (a < b)"
| "dbl_less _ _ = False"

text \<open>
  A packet carries its content (one entry per bit), the bit error flag and the id of the
  transmission it belongs to. A signal encapsulates a packet and has a duration.
\<close>

record packet =
  content :: "bool list"
  bitError :: bool
  transmissionId :: int

definition getTotalLength :: "packet \<Rightarrow> int" where
  "getTotalLength p = int (length (content p))"

definition containsSameData :: "packet \<Rightarrow> packet \<Rightarrow> bool" where
  "containsSameData p q = (content p = content q)"

record signal =
  encapsulatedPacket :: packet
  duration :: real

datatype error =
    AssertionFailure
  | RuntimeError string
  | ChunkUsageError
  | InvalidPointer

text \<open>What the transmitter hands to its collaborators, in the order of the calls.\<close>

datatype notification =
    TransmissionStarted signal
  | SignalStart signal int
  | SignalProgress signal int int real
  | TransmissionEnded signal
  | SignalEnd signal int
  | PacketProcessed packet
  | PushPacketProcessed packet bool
  | CanPushPacketChanged
  | DeletedPacket packet
  | DeletedSignal signal

text \<open>
  The two self messages are distinct objects; every other message goes to the base class.
\<close>

datatype message = TxEndTimer | BufferUnderrunTimer | OtherMessage nat

text \<open>
  The readings of the host at the moment of a call: \<open>simTime()\<close> and \<open>getClockTime()\<close>.
\<close>

record env =
  simTime :: real
  clockTime :: real

text \<open>
  The configuration: the \<open>datarate\<close> parameter, whether a producer is connected
  (\<open>producer != nullptr\<close>), and the duration the codec of the base class gives to a packet
  sent at a rate. The base class is not among the source files, so its duration formula is
  a parameter of the model. So are the conversions \<open>dbl()\<close> of a simulation time and of a
  clock time to a double, which belong to the time classes of the host, and the bit count
  that the conversion of NaN to the integer type of \<open>b\<close> yields: the language leaves that
  result open and the code goes on with whatever the platform gives.
\<close>

record config =
  dataratePar :: real
  producer :: bool
  calculateDuration :: "dbl \<Rightarrow> packet \<Rightarrow> real"
  simTimeDbl :: "real \<Rightarrow> real"
  clockTimeDbl :: "real \<Rightarrow> real"
  nanBits :: int

text \<open>
  The fields of the transmitter. A timer is \<open>None\<close> while it is not scheduled and
  \<open>Some t\<close> while it is scheduled for the time \<open>t\<close>: a self message is scheduled at most
  once. The checks of the host kernel on a requested time are not part of the model.
\<close>

record transmitter =
  txSignal :: "signal option"
  txDatarate :: dbl
  txStartTime :: real
  txStartClockTime :: real
  lastTxProgressTime :: real
  lastTxProgressPosition :: int
  lastInputDatarate :: dbl
  lastInputProgressTime :: real
  lastInputProgressPosition :: int
  txEndTimer :: "real option"
  bufferUnderrunTimer :: "real option"
  notifications :: "notification list"

definition initialTransmitter :: transmitter where
  "initialTransmitter =
     \<lparr>txSignal = None, txDatarate = NaN, txStartTime = -1, txStartClockTime = -1,
      lastTxProgressTime = -1, lastTxProgressPosition = -1, lastInputDatarate = NaN,
      lastInputProgressTime = -1, lastInputProgressPosition = -1,
      txEndTimer = None, bufferUnderrunTimer = None, notifications = []\<rparr>"

subsection \<open>Helpers declared outside the source files\<close>

text \<open>
  Modelled from the spec: \<open>isTransmitting()\<close> is declared in the base class, which is not
  among the source files. The spec: "\<open>isTransmitting()\<close> true iff \<open>txSignal != null\<close>".
\<close>

definition isTransmitting :: "transmitter \<Rightarrow> bool" where
  "isTransmitting s = (txSignal s \<noteq> None)"

text \<open>
  Modelled from the spec: \<open>encodePacket\<close> is declared in the base class. The spec calls it
  an opaque "encode packet into transmittable signal": the signal encapsulates the packet
  and gets the duration the codec computes at the committed rate.
\<close>

definition encodePacket :: "config \<Rightarrow> transmitter \<Rightarrow> packet \<Rightarrow> signal" where
  "encodePacket cfg s p =
     \<lparr>encapsulatedPacket = p, duration = calculateDuration cfg (txDatarate s) p\<rparr>"

text \<open>
  Modelled from the spec: \<open>Packet::eraseAtBack\<close> is declared in the packet library, which is
  not among the source files. The spec: abort "truncates the packet to that many bits from
  the back". The spec is silent on a length that is negative or longer than the packet;
  the packet library checks its argument and throws there, and so does the model.
\<close>

definition eraseAtBack :: "int \<Rightarrow> packet \<Rightarrow> error + packet" where
  "eraseAtBack n p =
     (if 0 \<le> n \<and> n \<le> getTotalLength p
      then Inr (p\<lparr>content := take (nat (getTotalLength p - n)) (content p)\<rparr>)
      else Inl ChunkUsageError)"

subsection \<open>Double precision\<close>

text \<open>
  The product of two doubles is the exact product rounded to the nearest double, ties to
  the even significand (IEEE 754 binary64, the default rounding). \<open>bitLength n\<close> is the
  number of binary digits of \<open>n\<close>; \<open>binade x\<close> is the exponent \<open>e\<close> with
  \<open>2^e \<le> |x| < 2^(e+1)\<close>; \<open>ulp x\<close> is the distance of neighbouring doubles around \<open>x\<close>,
  with 52 fraction bits and the smallest exponent \<open>-1022\<close>. Values beyond the largest double
  are left as they are: they are far outside the range of a bit count in any case.
\<close>

fun bitLength :: "nat \<Rightarrow> nat" where
  "bitLength n = (if n = 0 then 0 else Suc (bitLength (n div 2)))"

declare bitLength.simps [simp del]

definition binade :: "real \<Rightarrow> int" where
  "binade x =
     (if 1 \<le> \<bar>x\<bar> then int (bitLength (nat \<lfloor>\<bar>x\<bar>\<rfloor>)) - 1
      else - int (bitLength (nat (\<lceil>1 / \<bar>x\<bar>\<rceil> - 1))))"

definition ulp :: "real \<Rightarrow> real" where
  "ulp x =
     (let e = max (binade x) (- 1022) - 52
      in if 0 \<le> e then 2 ^ nat e else 1 / 2 ^ nat (- e))"

definition roundHalfEven :: "real \<Rightarrow> int" where
  "roundHalfEven y =
     (let f = \<lfloor>y\<rfloor>; d = y - of_int f
      in if d < 1 / 2 then f else if 1 / 2 < d then f + 1 else if even f then f else f + 1)"

definition roundToDouble :: "real \<Rightarrow> real" where
  "roundToDouble x = (if x = 0 then 0 else of_int (roundHalfEven (x / ulp x)) * ulp x)"

definition doubleProduct :: "real \<Rightarrow> real \<Rightarrow> real" where
  "doubleProduct a b = roundToDouble (a * b)"

text \<open>
  \<open>b(std::floor(rate * time))\<close>: the double precision product of a rate and of a time that
  \<open>dbl()\<close> has converted to a double, rounded down and converted to a bit count. With the
  rate NaN the product and its floor are NaN, and the bit count is the one the platform
  gives for NaN.
\<close>

fun toBits :: "config \<Rightarrow> dbl \<Rightarrow> real \<Rightarrow> int" where
  "toBits cfg NaN t = nanBits cfg"
| "toBits cfg (Fin r) t = \<lfloor>doubleProduct r t\<rfloor>"

subsection \<open>Timers\<close>

text \<open>
  \<open>scheduleBufferUnderrunTimer\<close>: the timer is cancelled, and scheduled again only when the
  input rate is below the transmission rate.
\<close>

definition scheduleBufferUnderrunTimer :: "transmitter \<Rightarrow> transmitter" where
  "scheduleBufferUnderrunTimer s =
     (let s1 = s\<lparr>bufferUnderrunTimer := None\<rparr> in
      if dbl_less (lastInputDatarate s1) (txDatarate s1) then
        (case (lastInputDatarate s1, txDatarate s1) of
           (Fin inR, Fin txR) \<Rightarrow>
             s1\<lparr>bufferUnderrunTimer := Some
                 ((- real_of_int (lastInputProgressPosition s1) + inR * lastInputProgressTime s1
                   + real_of_int (lastTxProgressPosition s1) - txR * lastTxProgressTime s1)
                  / (inR - txR))\<rparr>
         | _ \<Rightarrow> s1)
      else s1)"

text \<open>
  \<open>scheduleTxEndTimer\<close>: asserts that a start clock time is stored, then cancels the end
  timer and schedules it at the start clock time plus the duration of the signal.
\<close>

definition scheduleTxEndTimer :: "signal \<Rightarrow> transmitter \<Rightarrow> error + transmitter" where
  "scheduleTxEndTimer sig s =
     (if txStartClockTime s = -1 then Inl AssertionFailure
      else Inr (s\<lparr>txEndTimer := Some (txStartClockTime s + duration sig)\<rparr>))"

subsection \<open>Transitions\<close>

text \<open>
  An \<open>ASSERT\<close> that fails and a thrown \<open>cRuntimeError\<close> end the call with an error value;
  no state is returned then.
\<close>

definition startTx :: "config \<Rightarrow> env \<Rightarrow> packet \<Rightarrow> dbl \<Rightarrow> int \<Rightarrow> transmitter \<Rightarrow> error + transmitter" where
  "startTx cfg e p datarate position s =
     (if isTransmitting s then Inl AssertionFailure
      else
        let s1 = s\<lparr>lastInputDatarate := datarate,
                   lastInputProgressTime := simTime e,
                   lastInputProgressPosition := position\<rparr>;
            s2 = s1\<lparr>txDatarate := Fin (dataratePar cfg),
                    txStartTime := simTime e,
                    txStartClockTime := clockTime e,
                    lastTxProgressTime := simTime e,
                    lastTxProgressPosition := 0\<rparr>;
            sig = encodePacket cfg s2 p;
            s3 = s2\<lparr>txSignal := Some sig,
                    notifications := notifications s2 @
                      [TransmissionStarted sig, SignalStart sig (transmissionId p)]\<rparr>
        in case scheduleTxEndTimer sig s3 of
             Inl err \<Rightarrow> Inl err
           | Inr s4 \<Rightarrow> Inr (scheduleBufferUnderrunTimer s4))"

text \<open>
  \<open>progressTx\<close>: the flag \<open>isPacketUnchangedSinceLastProgress\<close> is computed from the state
  before the input progress is overwritten.
\<close>

definition isInputProgressAtEnd :: "int \<Rightarrow> packet \<Rightarrow> packet \<Rightarrow> bool" where
  "isInputProgressAtEnd inputProgressPosition p txPacket =
     (inputProgressPosition = getTotalLength p \<and> getTotalLength p = getTotalLength txPacket)"

definition isPacketUnchangedSinceLastProgress :: "int \<Rightarrow> packet \<Rightarrow> packet \<Rightarrow> bool" where
  "isPacketUnchangedSinceLastProgress inputProgressPosition p txPacket =
     (isInputProgressAtEnd inputProgressPosition p txPacket \<or> containsSameData p txPacket)"

definition progressTx :: "config \<Rightarrow> env \<Rightarrow> packet \<Rightarrow> dbl \<Rightarrow> int \<Rightarrow> transmitter \<Rightarrow> error + transmitter" where
  "progressTx cfg e p datarate position s =
     (if \<not> isTransmitting s then Inl AssertionFailure
      else case txSignal s of
        None \<Rightarrow> Inl AssertionFailure
      | Some oldSignal \<Rightarrow>
         let inputProgressPosition =
               lastInputProgressPosition s
               + toBits cfg (lastInputDatarate s)
                   (simTimeDbl cfg (simTime e - lastInputProgressTime s));
             txPacket = encapsulatedPacket oldSignal;
             unchanged = isPacketUnchangedSinceLastProgress inputProgressPosition p txPacket;
             s1 = s\<lparr>lastInputDatarate := datarate,
                    lastInputProgressTime := simTime e,
                    lastInputProgressPosition := position\<rparr>;
             timePosition = clockTime e - txStartClockTime s1;
             txPosition = toBits cfg (txDatarate s1) (clockTimeDbl cfg timePosition);
             s2 = s1\<lparr>lastTxProgressTime := simTime e,
                     lastTxProgressPosition := txPosition\<rparr>;
             s3 = (if unchanged
                   then s2\<lparr>notifications := notifications s2 @ [DeletedPacket p]\<rparr>
                   else
                     let sig = encodePacket cfg s2 p
                     in s2\<lparr>txSignal := Some sig,
                           notifications := notifications s2 @
                             [DeletedSignal oldSignal,
                              SignalProgress sig (transmissionId p) txPosition timePosition]\<rparr>)
         in (case txSignal s3 of
               None \<Rightarrow> Inl AssertionFailure
             | Some sig \<Rightarrow>
                (case scheduleTxEndTimer sig s3 of
                   Inl err \<Rightarrow> Inl err
                 | Inr s4 \<Rightarrow> Inr (scheduleBufferUnderrunTimer s4))))"

text \<open>Step 3 of \<open>endTx\<close> and step 5 of \<open>abortTx\<close>: the fields get their unset values.\<close>

definition clearTxState :: "transmitter \<Rightarrow> transmitter" where
  "clearTxState s =
     s\<lparr>txDatarate := NaN, txStartTime := -1, txStartClockTime := -1,
       lastTxProgressTime := -1, lastTxProgressPosition := -1,
       lastInputDatarate := NaN, lastInputProgressTime := -1,
       lastInputProgressPosition := -1\<rparr>"

definition notifyProducer :: "config \<Rightarrow> packet \<Rightarrow> transmitter \<Rightarrow> transmitter" where
  "notifyProducer cfg p s =
     (if producer cfg
      then s\<lparr>notifications := notifications s @ [PushPacketProcessed p True, CanPushPacketChanged]\<rparr>
      else s)"

definition endTx :: "config \<Rightarrow> transmitter \<Rightarrow> error + transmitter" where
  "endTx cfg s =
     (if \<not> isTransmitting s then Inl AssertionFailure
      else case txSignal s of
        None \<Rightarrow> Inl AssertionFailure
      | Some sig \<Rightarrow>
         let p = encapsulatedPacket sig;
             s1 = s\<lparr>notifications := notifications s @
                      [PacketProcessed p, TransmissionEnded sig, SignalEnd sig (transmissionId p)]\<rparr>;
             s2 = clearTxState (s1\<lparr>txSignal := None\<rparr>)
         in Inr (notifyProducer cfg p s2))"

definition abortTx :: "config \<Rightarrow> env \<Rightarrow> transmitter \<Rightarrow> error + transmitter" where
  "abortTx cfg e s =
     (if \<not> isTransmitting s then Inl AssertionFailure
      else case txSignal s of
        None \<Rightarrow> Inl AssertionFailure
      | Some oldSignal \<Rightarrow>
         let p = encapsulatedPacket oldSignal;
             timePosition = simTime e - txStartTime s;
             dataPosition = toBits cfg (txDatarate s) (simTimeDbl cfg timePosition)
         in (case eraseAtBack (getTotalLength p - dataPosition) p of
               Inl err \<Rightarrow> Inl err
             | Inr truncated \<Rightarrow>
                let p1 = truncated\<lparr>bitError := True\<rparr>;
                    sig = (encodePacket cfg s p1)\<lparr>duration := timePosition\<rparr>;
                    s1 = s\<lparr>txSignal := None,
                           notifications := notifications s @
                             [DeletedSignal oldSignal, PacketProcessed p1,
                              TransmissionEnded sig, SignalEnd sig (transmissionId p1)]\<rparr>;
                    s2 = clearTxState s1
                in Inr (notifyProducer cfg p1 s2)))"

subsection \<open>Entry points\<close>

text \<open>
  \<open>handleMessageWhenUp\<close>: the handler of the base class for other messages is not among the
  source files and is a parameter. The display string is not modelled.
\<close>

definition handleMessageWhenUp ::
  "(nat \<Rightarrow> transmitter \<Rightarrow> error + transmitter) \<Rightarrow> config \<Rightarrow> message \<Rightarrow> transmitter \<Rightarrow> error + transmitter" where
  "handleMessageWhenUp base cfg m s =
     (if m = TxEndTimer then endTx cfg s
      else if m = BufferUnderrunTimer then Inl (RuntimeError ''Buffer underrun during transmission'')
      else (case m of OtherMessage n \<Rightarrow> base n s | _ \<Rightarrow> Inr s))"

definition handleStopOperation :: "config \<Rightarrow> env \<Rightarrow> transmitter \<Rightarrow> error + transmitter" where
  "handleStopOperation cfg e s = (if isTransmitting s then abortTx cfg e s else Inr s)"

definition handleCrashOperation :: "config \<Rightarrow> env \<Rightarrow> transmitter \<Rightarrow> error + transmitter" where
  "handleCrashOperation cfg e s = (if isTransmitting s then abortTx cfg e s else Inr s)"

definition pushPacketStart :: "config \<Rightarrow> env \<Rightarrow> packet \<Rightarrow> dbl \<Rightarrow> transmitter \<Rightarrow> error + transmitter" where
  "pushPacketStart cfg e p datarate s = startTx cfg e p datarate 0 s"

definition pushPacketEnd :: "config \<Rightarrow> env \<Rightarrow> packet \<Rightarrow> transmitter \<Rightarrow> error + transmitter" where
  "pushPacketEnd cfg e p s =
     (if txSignal s = None then Inl AssertionFailure
      else progressTx cfg e p NaN (getTotalLength p) s)"

definition pushPacketProgress :: "config \<Rightarrow> env \<Rightarrow> packet \<Rightarrow> dbl \<Rightarrow> int \<Rightarrow> transmitter \<Rightarrow> error + transmitter" where
  "pushPacketProgress cfg e p datarate position s =
     (if isTransmitting s then progressTx cfg e p datarate position s
      else startTx cfg e p datarate position s)"

subsection \<open>Sequences of calls\<close>

text \<open>
  The calls the host makes on a transmitter: the three calls of the push protocol, the
  delivery of the end timer, and the two lifecycle operations. Each call comes with the
  readings of the host at that moment. A sequence stops at the first error. A timer that is
  delivered is no longer scheduled.
\<close>

datatype call =
    PushPacketStart packet dbl
  | PushPacketProgress packet dbl int
  | PushPacketEnd packet
  | EndTimerExpires
  | StopOperation
  | CrashOperation

fun step ::
  "(nat \<Rightarrow> transmitter \<Rightarrow> error + transmitter) \<Rightarrow> config \<Rightarrow> env \<times> call \<Rightarrow> transmitter
     \<Rightarrow> error + transmitter" where
  "step base cfg (e, PushPacketStart p datarate) s = pushPacketStart cfg e p datarate s"
| "step base cfg (e, PushPacketProgress p datarate position) s =
     pushPacketProgress cfg e p datarate position s"
| "step base cfg (e, PushPacketEnd p) s = pushPacketEnd cfg e p s"
| "step base cfg (e, EndTimerExpires) s =
     handleMessageWhenUp base cfg TxEndTimer (s\<lparr>txEndTimer := None\<rparr>)"
| "step base cfg (e, StopOperation) s = handleStopOperation cfg e s"
| "step base cfg (e, CrashOperation) s = handleCrashOperation cfg e s"

fun run ::
  "(nat \<Rightarrow> transmitter \<Rightarrow> error + transmitter) \<Rightarrow> config \<Rightarrow> (env \<times> call) list \<Rightarrow> transmitter
     \<Rightarrow> error + transmitter" where
  "run base cfg [] s = Inr s"
| "run base cfg (c # cs) s =
     (case step base cfg c s of Inl err \<Rightarrow> Inl err | Inr s1 \<Rightarrow> run base cfg cs s1)"

text \<open>The input rate of a call is at least the configured transmission rate.\<close>

fun keepsPace :: "config \<Rightarrow> env \<times> call \<Rightarrow> bool" where
  "keepsPace cfg (e, PushPacketStart p (Fin r)) = (dataratePar cfg \<le> r)"
| "keepsPace cfg (e, PushPacketStart p NaN) = False"
| "keepsPace cfg (e, PushPacketProgress p (Fin r) position) = (dataratePar cfg \<le> r)"
| "keepsPace cfg (e, PushPacketProgress p NaN position) = False"
| "keepsPace cfg (e, c) = True"

text \<open>
  The two linear position functions named in the comment of
  \<open>scheduleBufferUnderrunTimer\<close>, as functions of the time \<open>t\<close>. They have no value while
  the rate is NaN.
\<close>

definition inputProgressPositionAt :: "transmitter \<Rightarrow> real \<Rightarrow> real option" where
  "inputProgressPositionAt s t =
     (case lastInputDatarate s of
        NaN \<Rightarrow> None
      | Fin inR \<Rightarrow>
          Some (real_of_int (lastInputProgressPosition s) + inR * (t - lastInputProgressTime s)))"

definition txProgressPositionAt :: "transmitter \<Rightarrow> real \<Rightarrow> real option" where
  "txProgressPositionAt s t =
     (case txDatarate s of
        NaN \<Rightarrow> None
      | Fin txR \<Rightarrow>
          Some (real_of_int (lastTxProgressPosition s) + txR * (t - lastTxProgressTime s)))"

text \<open>
  The invariant of a sequence whose input keeps pace: no underrun timer is scheduled, and
  the committed rate is unset or the configured one.
\<close>

definition paceInvariant :: "config \<Rightarrow> transmitter \<Rightarrow> bool" where
  "paceInvariant cfg s =
     (bufferUnderrunTimer s = None \<and> (txDatarate s = NaN \<or> txDatarate s = Fin (dataratePar cfg)))"

text \<open>
  The invariant of a transmitting state: the committed rate is the configured one, a start
  clock time is stored, and the end timer is scheduled at the start clock time plus the
  duration of the signal in flight.
\<close>

definition transmittingInvariant :: "config \<Rightarrow> transmitter \<Rightarrow> bool" where
  "transmittingInvariant cfg s =
     (case txSignal s of
        None \<Rightarrow> True
      | Some sig \<Rightarrow>
          txDatarate s = Fin (dataratePar cfg) \<and> txStartClockTime s \<noteq> -1
          \<and> txEndTimer s = Some (txStartClockTime s + duration sig))"

subsection \<open>Example inputs\<close>

text \<open>
  A configuration with a rate of 8 bits per second whose codec gives a packet of \<open>n\<close> bits
  the duration \<open>n / rate\<close>, whose time conversions round to the nearest double and whose
  platform converts NaN to the smallest 64-bit integer; a packet of 16 bits; and the state
  after that packet was started at time 0 by a producer that delivers 4 bits per second and
  is 8 bits ahead.
\<close>

definition exampleConfig :: config where
  "exampleConfig =
     \<lparr>dataratePar = 8, producer = True,
      calculateDuration = (\<lambda>r p. case r of NaN \<Rightarrow> 0 | Fin q \<Rightarrow> real (length (content p)) / q),
      simTimeDbl = roundToDouble, clockTimeDbl = roundToDouble,
      nanBits = - 9223372036854775808\<rparr>"

definition examplePacket :: packet where
  "examplePacket = \<lparr>content = replicate 16 True, bitError = False, transmissionId = 7\<rparr>"

definition exampleSignal :: signal where
  "exampleSignal = \<lparr>encapsulatedPacket = examplePacket, duration = 2\<rparr>"

definition exampleTransmitting :: transmitter where
  "exampleTransmitting =
     \<lparr>txSignal = Some exampleSignal, txDatarate = Fin 8, txStartTime = 0, txStartClockTime = 0,
      lastTxProgressTime = 0, lastTxProgressPosition = 0, lastInputDatarate = Fin 4,
      lastInputProgressTime = 0, lastInputProgressPosition = 8,
      txEndTimer = Some 2, bufferUnderrunTimer = Some 2,
      notifications = [TransmissionStarted exampleSignal, SignalStart exampleSignal 7]\<rparr>"

text \<open>
  The same configuration at 100 bits per second, a packet of 57 bits, the state after it
  was started at time 0 by a producer that delivers 100 bits per second, and a second
  packet of 57 bits with other data.
\<close>

definition roundingConfig :: config where
  "roundingConfig = exampleConfig\<lparr>dataratePar := 100\<rparr>"

definition roundingPacket :: packet where
  "roundingPacket = \<lparr>content = replicate 57 True, bitError = False, transmissionId = 7\<rparr>"

definition roundingSignal :: signal where
  "roundingSignal = \<lparr>encapsulatedPacket = roundingPacket, duration = 57 / 100\<rparr>"

definition roundingTransmitting :: transmitter where
  "roundingTransmitting =
     \<lparr>txSignal = Some roundingSignal, txDatarate = Fin 100, txStartTime = 0,
      txStartClockTime = 0, lastTxProgressTime = 0, lastTxProgressPosition = 0,
      lastInputDatarate = Fin 100, lastInputProgressTime = 0, lastInputProgressPosition = 0,
      txEndTimer = Some (57 / 100), bufferUnderrunTimer = None,
      notifications = [TransmissionStarted roundingSignal, SignalStart roundingSignal 7]\<rparr>"

definition changedPacket :: packet where
  "changedPacket = \<lparr>content = replicate 57 False, bitError = False, transmissionId = 7\<rparr>"

definition roundingDelivered :: packet where
  "roundingDelivered = \<lparr>content = replicate 56 True, bitError = True, transmissionId = 7\<rparr>"

definition exampleCalls :: "(env \<times> call) list" where
  "exampleCalls =
     [(\<lparr>simTime = 0, clockTime = 0\<rparr>, PushPacketStart examplePacket (Fin 8)),
      (\<lparr>simTime = 1, clockTime = 1\<rparr>, PushPacketProgress examplePacket (Fin 10) 8),
      (\<lparr>simTime = 3 / 2, clockTime = 3 / 2\<rparr>, PushPacketEnd examplePacket),
      (\<lparr>simTime = 2, clockTime = 2\<rparr>, EndTimerExpires)]"

section \<open>Path tracker (PathVisualizerBase)\<close>

subsection \<open>Data model\<close>

text \<open>
  An animation position holds the three clocks of the host; \<open>AnimationPosition()\<close> reads
  the current one, which the model takes as an argument.
\<close>

record animationPosition =
  simulationTime :: real
  animationTime :: real
  realTime :: real

text \<open>
  Modelled from the spec: the class \<open>PathVisualization\<close> is declared in the header, which is
  not among the source files. The spec: "ordered node-id sequence, human label, cumulative
  \<open>totalLength\<close> (bits), \<open>numPackets\<close> counter, \<open>lastUsageAnimationPosition\<close>"; a new object
  has counted no packet and no bit.
\<close>

record pathVisualization =
  moduleIds :: "int list"
  label :: string
  numPackets :: int
  totalLength :: int
  lastUsageAnimationPosition :: animationPosition

text \<open>
  Modelled from the spec: \<open>mapChunks\<close> is declared in the base class of the visualizers. The
  spec: "for every chunk composing the packet". A packet is given here as the chunks that
  \<open>mapChunks\<close> visits, in order, each with its chunk id and its length.
\<close>

record chunk =
  chunkId :: int
  chunkLength :: int

record visualizerConfig =
  fadeOutMode :: string
  fadeOutTime :: real

text \<open>
  The visualizer holds pointers to its \<open>PathVisualization\<close> objects in a multimap keyed by
  source and destination. The objects live in \<open>objects\<close>, a store from addresses to values;
  the multimap is the list of its entries in iteration order. \<open>nextAddress\<close> is the address
  that the next \<open>new\<close> returns. \<open>opacity\<close> records the last value given to \<open>setAlpha\<close> for
  an object.
\<close>

record visualizer =
  incompletePaths :: "(string \<times> int) \<rightharpoonup> int list"
  pathVisualizations :: "((int \<times> int) \<times> nat) list"
  objects :: "nat \<rightharpoonup> pathVisualization"
  opacity :: "nat \<rightharpoonup> real"
  nextAddress :: nat

definition emptyVisualizer :: visualizer where
  "emptyVisualizer =
     \<lparr>incompletePaths = Map.empty, pathVisualizations = [], objects = Map.empty,
      opacity = Map.empty, nextAddress = 0\<rparr>"

subsection \<open>The multimap of path visualizations\<close>

fun key_less :: "int \<times> int \<Rightarrow> int \<times> int \<Rightarrow> bool" where
  "key_less (a, b) (c, d) = (a < c \<or> (a = c \<and> b < d))"

text \<open>\<open>std::multimap::insert\<close>: after the entries whose key is not greater.\<close>

fun multimap_insert :: "int \<times> int \<Rightarrow> nat \<Rightarrow> ((int \<times> int) \<times> nat) list \<Rightarrow> ((int \<times> int) \<times> nat) list" where
  "multimap_insert k a [] = [(k, a)]"
| "multimap_insert k a (x # xs) =
     (if key_less k (fst x) then (k, a) # x # xs else x # multimap_insert k a xs)"

text \<open>
  \<open>front()\<close> and \<open>back()\<close> of the node sequence. They are only applied to sequences with at
  least one node: every stored visualization has more than one.
\<close>

definition sourceAndDestination :: "int list \<Rightarrow> int \<times> int" where
  "sourceAndDestination ids = (hd ids, last ids)"

definition createPathVisualization :: "string \<Rightarrow> int list \<Rightarrow> animationPosition \<Rightarrow> pathVisualization" where
  "createPathVisualization l path now =
     \<lparr>moduleIds = path, label = l, numPackets = 0, totalLength = 0,
      lastUsageAnimationPosition = now\<rparr>"

definition matchesPath :: "visualizer \<Rightarrow> int list \<Rightarrow> (int \<times> int) \<times> nat \<Rightarrow> bool" where
  "matchesPath v path entry =
     (fst entry = sourceAndDestination path \<and>
      (case objects v (snd entry) of None \<Rightarrow> False | Some pv \<Rightarrow> moduleIds pv = path))"

definition getPathVisualization :: "int list \<Rightarrow> visualizer \<Rightarrow> nat option" where
  "getPathVisualization path v =
     map_option snd (find (matchesPath v path) (pathVisualizations v))"

definition addPathVisualization :: "nat \<Rightarrow> pathVisualization \<Rightarrow> visualizer \<Rightarrow> visualizer" where
  "addPathVisualization a pv v =
     v\<lparr>pathVisualizations :=
         multimap_insert (sourceAndDestination (moduleIds pv)) a (pathVisualizations v)\<rparr>"

text \<open>
  \<open>removePathVisualization\<close> erases the first entry of the key's range that holds the
  pointer. Reading the key through a pointer to a released object is undefined in C++; the
  model stops with an error there.
\<close>

definition removePathVisualization :: "nat \<Rightarrow> visualizer \<Rightarrow> error + visualizer" where
  "removePathVisualization a v =
     (case objects v a of
        None \<Rightarrow> Inl InvalidPointer
      | Some pv \<Rightarrow>
          Inr (v\<lparr>pathVisualizations :=
                 remove1 (sourceAndDestination (moduleIds pv), a) (pathVisualizations v)\<rparr>))"

definition deleteObject :: "nat \<Rightarrow> visualizer \<Rightarrow> visualizer" where
  "deleteObject a v = v\<lparr>objects := (objects v)(a := None), opacity := (opacity v)(a := None)\<rparr>"

subsection \<open>Incomplete paths\<close>

definition getIncompletePath :: "string \<Rightarrow> int \<Rightarrow> visualizer \<Rightarrow> int list option" where
  "getIncompletePath l c v = incompletePaths v (l, c)"

text \<open>
  \<open>addToIncompletePath\<close>: \<open>incompletePaths[{label, chunkId}]\<close> creates an empty sequence when
  the key is new; the node is appended unless it equals the last entry.
\<close>

definition addToIncompletePath :: "string \<Rightarrow> int \<Rightarrow> int \<Rightarrow> visualizer \<Rightarrow> visualizer" where
  "addToIncompletePath l c moduleId v =
     (let ids = (case incompletePaths v (l, c) of None \<Rightarrow> [] | Some xs \<Rightarrow> xs)
      in if length ids = 0 \<or> ids ! (length ids - 1) \<noteq> moduleId
         then v\<lparr>incompletePaths := (incompletePaths v)((l, c) \<mapsto> ids @ [moduleId])\<rparr>
         else v\<lparr>incompletePaths := (incompletePaths v)((l, c) \<mapsto> ids)\<rparr>)"

definition removeIncompletePath :: "string \<Rightarrow> int \<Rightarrow> visualizer \<Rightarrow> visualizer" where
  "removeIncompletePath l c v = v\<lparr>incompletePaths := (incompletePaths v)((l, c) := None)\<rparr>"

definition refreshPathVisualization :: "animationPosition \<Rightarrow> nat \<Rightarrow> visualizer \<Rightarrow> visualizer" where
  "refreshPathVisualization now a v =
     (case objects v a of
        None \<Rightarrow> v
      | Some pv \<Rightarrow> v\<lparr>objects := (objects v)(a \<mapsto> pv\<lparr>lastUsageAnimationPosition := now\<rparr>)\<rparr>)"

subsection \<open>Start, element and end of a path\<close>

definition pathStartChunk :: "int \<Rightarrow> string \<Rightarrow> chunk \<Rightarrow> visualizer \<Rightarrow> visualizer" where
  "pathStartChunk node l ch v =
     (let v1 = (if getIncompletePath l (chunkId ch) v \<noteq> None
                then removeIncompletePath l (chunkId ch) v else v)
      in addToIncompletePath l (chunkId ch) node v1)"

definition processPathStart :: "int \<Rightarrow> string \<Rightarrow> chunk list \<Rightarrow> visualizer \<Rightarrow> visualizer" where
  "processPathStart node l pkt v = fold (pathStartChunk node l) pkt v"

definition pathElementChunk :: "int \<Rightarrow> string \<Rightarrow> chunk \<Rightarrow> visualizer \<Rightarrow> visualizer" where
  "pathElementChunk node l ch v =
     (if getIncompletePath l (chunkId ch) v \<noteq> None
      then addToIncompletePath l (chunkId ch) node v else v)"

definition processPathElement :: "int \<Rightarrow> string \<Rightarrow> chunk list \<Rightarrow> visualizer \<Rightarrow> visualizer" where
  "processPathElement node l pkt v = fold (pathElementChunk node l) pkt v"

text \<open>
  The body of the loop of \<open>processPathEnd\<close>. The second component is the set
  \<open>updatedVisualizations\<close> of pointers, kept as a list without repetition. The pointer
  \<open>path\<close> refers to the sequence inside the map, so it sees the node just appended.
\<close>

definition addLength :: "nat \<Rightarrow> int \<Rightarrow> visualizer \<Rightarrow> visualizer" where
  "addLength a n v =
     (case objects v a of
        None \<Rightarrow> v
      | Some pv \<Rightarrow> v\<lparr>objects := (objects v)(a \<mapsto> pv\<lparr>totalLength := totalLength pv + n\<rparr>)\<rparr>)"

definition lookupOrCreate :: "animationPosition \<Rightarrow> string \<Rightarrow> int list \<Rightarrow> visualizer \<Rightarrow> visualizer \<times> nat" where
  "lookupOrCreate now l path v =
     (case getPathVisualization path v of
        Some a \<Rightarrow> (v, a)
      | None \<Rightarrow>
          let a = nextAddress v;
              pv = createPathVisualization l path now;
              v1 = v\<lparr>objects := (objects v)(a \<mapsto> pv), nextAddress := Suc a\<rparr>
          in (addPathVisualization a pv v1, a))"

definition pathEndChunk ::
  "animationPosition \<Rightarrow> int \<Rightarrow> string \<Rightarrow> chunk \<Rightarrow> visualizer \<times> nat list \<Rightarrow> visualizer \<times> nat list" where
  "pathEndChunk now node l ch st =
     (let v = fst st; updated = snd st in
      if getIncompletePath l (chunkId ch) v \<noteq> None then
        let v1 = addToIncompletePath l (chunkId ch) node v;
            path = (case incompletePaths v1 (l, chunkId ch) of None \<Rightarrow> [] | Some xs \<Rightarrow> xs)
        in if length path > 1 then
             let found = lookupOrCreate now l path v1;
                 v2 = addLength (snd found) (chunkLength ch) (fst found)
             in (removeIncompletePath l (chunkId ch) v2, List.insert (snd found) updated)
           else (removeIncompletePath l (chunkId ch) v1, updated)
      else (v, updated))"

definition countPacket :: "animationPosition \<Rightarrow> nat \<Rightarrow> visualizer \<Rightarrow> visualizer" where
  "countPacket now a v =
     refreshPathVisualization now a
       (case objects v a of
          None \<Rightarrow> v
        | Some pv \<Rightarrow> v\<lparr>objects := (objects v)(a \<mapsto> pv\<lparr>numPackets := numPackets pv + 1\<rparr>)\<rparr>)"

definition processPathEnd :: "animationPosition \<Rightarrow> int \<Rightarrow> string \<Rightarrow> chunk list \<Rightarrow> visualizer \<Rightarrow> visualizer" where
  "processPathEnd now node l pkt v =
     (let st = fold (pathEndChunk now node l) pkt (v, [])
      in fold (countPacket now) (snd st) (fst st))"

text \<open>The three events of the tracker, as \<open>receiveSignal\<close> dispatches them after filtering.\<close>

datatype pathEvent =
    PathStart int string "chunk list"
  | PathElement int string "chunk list"
  | PathEnd animationPosition int string "chunk list"

fun processEvent :: "pathEvent \<Rightarrow> visualizer \<Rightarrow> visualizer" where
  "processEvent (PathStart node l pkt) v = processPathStart node l pkt v"
| "processEvent (PathElement node l pkt) v = processPathElement node l pkt v"
| "processEvent (PathEnd now node l pkt) v = processPathEnd now node l pkt v"

definition processEvents :: "pathEvent list \<Rightarrow> visualizer \<Rightarrow> visualizer" where
  "processEvents evs v = fold processEvent evs v"

subsection \<open>Fade-out on display refresh\<close>

definition idleTime :: "string \<Rightarrow> animationPosition \<Rightarrow> animationPosition \<Rightarrow> error + real" where
  "idleTime mode current lastUsage =
     (if mode = ''simulationTime'' then Inr (simulationTime current - simulationTime lastUsage)
      else if mode = ''animationTime'' then Inr (animationTime current - animationTime lastUsage)
      else if mode = ''realTime'' then Inr (realTime current - realTime lastUsage)
      else Inl (RuntimeError (''Unknown fadeOutMode: '' @ mode)))"

text \<open>
  The first loop of \<open>refreshDisplay\<close>: it collects the pointers to remove and sets the
  opacity of the others.
\<close>

fun fadeOutLoop ::
  "visualizerConfig \<Rightarrow> animationPosition \<Rightarrow> ((int \<times> int) \<times> nat) list \<Rightarrow> visualizer \<times> nat list
     \<Rightarrow> error + visualizer \<times> nat list" where
  "fadeOutLoop cfg current [] st = Inr st"
| "fadeOutLoop cfg current (entry # rest) st =
     (case objects (fst st) (snd entry) of
        None \<Rightarrow> Inl InvalidPointer
      | Some pv \<Rightarrow>
         (case idleTime (fadeOutMode cfg) current (lastUsageAnimationPosition pv) of
            Inl err \<Rightarrow> Inl err
          | Inr delta \<Rightarrow>
             if delta > fadeOutTime cfg
             then fadeOutLoop cfg current rest (fst st, snd st @ [snd entry])
             else fadeOutLoop cfg current rest
                    ((fst st)\<lparr>opacity := (opacity (fst st))(snd entry \<mapsto> 1 - delta / fadeOutTime cfg)\<rparr>,
                     snd st)))"

text \<open>The second loop: each collected visualization is removed and released.\<close>

fun removeLoop :: "nat list \<Rightarrow> visualizer \<Rightarrow> error + visualizer" where
  "removeLoop [] v = Inr v"
| "removeLoop (a # rest) v =
     (case removePathVisualization a v of
        Inl err \<Rightarrow> Inl err
      | Inr v1 \<Rightarrow> removeLoop rest (deleteObject a v1))"

definition refreshDisplay :: "visualizerConfig \<Rightarrow> animationPosition \<Rightarrow> visualizer \<Rightarrow> error + visualizer" where
  "refreshDisplay cfg current v =
     (if fadeOutTime cfg > 0 then
        (case fadeOutLoop cfg current (pathVisualizations v) (v, []) of
           Inl err \<Rightarrow> Inl err
         | Inr st \<Rightarrow> removeLoop (snd st) (fst st))
      else Inr v)"

subsection \<open>Invariants and derived notions\<close>

text \<open>
  The event sequence start(A, label L, chunk 0), element(B, L, 0), end(C, L, 0) for a packet
  of one chunk of the given length.
\<close>

definition cycle :: "int \<Rightarrow> int \<Rightarrow> int \<Rightarrow> string \<Rightarrow> int \<Rightarrow> animationPosition \<Rightarrow> pathEvent list" where
  "cycle A B C L len now =
     [PathStart A L [\<lparr>chunkId = 0, chunkLength = len\<rparr>],
      PathElement B L [\<lparr>chunkId = 0, chunkLength = len\<rparr>],
      PathEnd now C L [\<lparr>chunkId = 0, chunkLength = len\<rparr>]]"

text \<open>
  The set \<open>updatedVisualizations\<close> that \<open>processPathEnd\<close> has collected when its loop over
  the chunks is done, and what its second loop does to each member.
\<close>

definition updatedVisualizations ::
  "animationPosition \<Rightarrow> int \<Rightarrow> string \<Rightarrow> chunk list \<Rightarrow> visualizer \<Rightarrow> nat list" where
  "updatedVisualizations now node l pkt v = snd (fold (pathEndChunk now node l) pkt (v, []))"

definition counted :: "animationPosition \<Rightarrow> pathVisualization \<Rightarrow> pathVisualization" where
  "counted now pv = pv\<lparr>numPackets := numPackets pv + 1, lastUsageAnimationPosition := now\<rparr>"

text \<open>
  The invariant of the loop over the chunks, relative to the state \<open>v\<close> before the call:
  the collected pointers are distinct and refer to objects, every object lies below
  \<open>nextAddress\<close>, the objects of \<open>v\<close> keep their packet counter and their time of last
  use, and every new object has counted no packet and is collected.
\<close>

definition endLoopInv :: "visualizer \<Rightarrow> visualizer \<Rightarrow> nat list \<Rightarrow> bool" where
  "endLoopInv v w upd =
     (distinct upd
      \<and> (\<forall>a \<in> set upd. objects w a \<noteq> None)
      \<and> (\<forall>a. objects w a \<noteq> None \<longrightarrow> a < nextAddress w)
      \<and> (\<forall>a pv. objects v a = Some pv \<longrightarrow>
             (\<exists>pv'. objects w a = Some pv' \<and> numPackets pv' = numPackets pv
                \<and> lastUsageAnimationPosition pv' = lastUsageAnimationPosition pv))
      \<and> (\<forall>a pv'. objects v a = None \<longrightarrow> objects w a = Some pv' \<longrightarrow>
             numPackets pv' = 0 \<and> a \<in> set upd))"

text \<open>No incomplete path has two equal consecutive entries.\<close>

definition adjacentDistinct :: "visualizer \<Rightarrow> bool" where
  "adjacentDistinct v = (\<forall>k path. incompletePaths v k = Some path \<longrightarrow> distinct_adj path)"

text \<open>
  The invariant of the store: every pointer occurs once in the multimap, it refers to an
  object, the object is filed under the first and last node of its sequence, and every
  object lies below \<open>nextAddress\<close>.
\<close>

definition wellFormed :: "visualizer \<Rightarrow> bool" where
  "wellFormed v =
     (distinct (map snd (pathVisualizations v))
      \<and> (\<forall>entry \<in> set (pathVisualizations v).
            \<exists>pv. objects v (snd entry) = Some pv
                 \<and> fst entry = sourceAndDestination (moduleIds pv))
      \<and> (\<forall>a. objects v a \<noteq> None \<longrightarrow> a < nextAddress v))"

text \<open>
  The idle time of the object at an address, when the object exists and the mode is known.
\<close>

definition idleOf :: "visualizerConfig \<Rightarrow> animationPosition \<Rightarrow> visualizer \<Rightarrow> nat \<Rightarrow> real option" where
  "idleOf cfg current v a =
     (case objects v a of
        None \<Rightarrow> None
      | Some pv \<Rightarrow>
          (case idleTime (fadeOutMode cfg) current (lastUsageAnimationPosition pv) of
             Inl err \<Rightarrow> None
           | Inr delta \<Rightarrow> Some delta))"

definition validFadeOutMode :: "string \<Rightarrow> bool" where
  "validFadeOutMode mode =
     (mode = ''simulationTime'' \<or> mode = ''animationTime'' \<or> mode = ''realTime'')"

subsection \<open>Example states\<close>

definition exampleChunk :: chunk where
  "exampleChunk = \<lparr>chunkId = 0, chunkLength = 100\<rparr>"

definition exampleOpenPath :: visualizer where
  "exampleOpenPath = emptyVisualizer\<lparr>incompletePaths := [(''L'', 0) \<mapsto> [1, 2]]\<rparr>"

definition exampleOpenChunks :: visualizer where
  "exampleOpenChunks =
     \<lparr>incompletePaths = [(''L'', 0) \<mapsto> [1, 2], (''L'', 1) \<mapsto> [1, 2]],
      pathVisualizations = [((1, 3), 0)],
      objects = [0 \<mapsto> \<lparr>moduleIds = [1, 2, 3], label = ''L'', numPackets = 1, totalLength = 100,
                        lastUsageAnimationPosition =
                          \<lparr>simulationTime = 0, animationTime = 0, realTime = 0\<rparr>\<rparr>],
      opacity = Map.empty, nextAddress = 1\<rparr>"


section \<open>Properties of the transmitter\<close>

lemmas call_defs = pushPacketStart_def pushPacketProgress_def pushPacketEnd_def
  handleMessageWhenUp_def handleStopOperation_def handleCrashOperation_def
  startTx_def progressTx_def endTx_def abortTx_def isTransmitting_def Let_def encodePacket_def
  scheduleTxEndTimer_def scheduleBufferUnderrunTimer_def clearTxState_def notifyProducer_def
  isPacketUnchangedSinceLastProgress_def isInputProgressAtEnd_def containsSameData_def
  getTotalLength_def eraseAtBack_def

lemmas example_defs = exampleConfig_def examplePacket_def exampleSignal_def
  exampleTransmitting_def exampleCalls_def initialTransmitter_def

lemmas double_defs = roundToDouble_def roundHalfEven_def ulp_def binade_def doubleProduct_def
  bitLength.simps

lemmas rounding_defs = roundingConfig_def roundingPacket_def roundingSignal_def
  roundingTransmitting_def changedPacket_def roundingDelivered_def

subsection \<open>Double precision\<close>

text \<open>
  The exponent that \<open>binade\<close> computes is the right one, and rounding to a double moves a
  value by at most half the distance of the neighbouring doubles.
\<close>

lemma bitLength_bounds: "0 < n \<Longrightarrow> 2 ^ (bitLength n - 1) \<le> n \<and> n < 2 ^ bitLength n"
proof (induction n rule: bitLength.induct)
  case (1 n)
  show ?case
  proof (cases "n div 2 = 0")
    case True
    with 1 have "n = 1" by (auto simp: div_eq_0_iff)
    then show ?thesis by (simp add: bitLength.simps)
  next
    case False
    with 1 have ih: "2 ^ (bitLength (n div 2) - 1) \<le> n div 2" "n div 2 < 2 ^ bitLength (n div 2)"
      by auto
    have pos: "0 < bitLength (n div 2)" using False by (simp add: bitLength.simps)
    have b: "bitLength n = Suc (bitLength (n div 2))" using 1(2) by (simp add: bitLength.simps)
    from pos obtain k where k: "bitLength (n div 2) = Suc k" by (cases "bitLength (n div 2)") auto
    from ih k have "2 * 2 ^ k \<le> 2 * (n div 2)" by simp
    also have "\<dots> \<le> n" by simp
    finally have lo: "2 ^ (bitLength n - 1) \<le> n" by (simp add: b k)
    from ih(2) have "n div 2 + 1 \<le> 2 ^ bitLength (n div 2)" by simp
    then have "2 * (n div 2) + 2 \<le> 2 * 2 ^ bitLength (n div 2)" by simp
    moreover have "n < 2 * (n div 2) + 2" by presburger
    ultimately have "n < 2 ^ bitLength n" by (simp add: b)
    with lo show ?thesis by simp
  qed
qed

lemma binade_bounds:
  assumes "x \<noteq> 0"
  shows "2 powi binade x \<le> \<bar>x\<bar> \<and> \<bar>x\<bar> < 2 powi (binade x + 1)"
proof (cases "1 \<le> \<bar>x\<bar>")
  case True
  define n where "n = nat \<lfloor>\<bar>x\<bar>\<rfloor>"
  have fl: "1 \<le> \<lfloor>\<bar>x\<bar>\<rfloor>" using True by linarith
  then have rn: "real n = real_of_int \<lfloor>\<bar>x\<bar>\<rfloor>" by (simp add: n_def)
  have n: "0 < n" "real n \<le> \<bar>x\<bar>" "\<bar>x\<bar> < real n + 1"
  proof -
    show "0 < n" using fl by (simp add: n_def)
    show "real n \<le> \<bar>x\<bar>" unfolding rn by linarith
    show "\<bar>x\<bar> < real n + 1" unfolding rn by linarith
  qed
  from bitLength_bounds[OF n(1)] have b: "2 ^ (bitLength n - 1) \<le> n" "n < 2 ^ bitLength n"
    by simp_all
  have pos: "0 < bitLength n" using n(1) by (simp add: bitLength.simps)
  have e: "binade x = int (bitLength n - 1)" "binade x + 1 = int (bitLength n)"
    using True pos by (simp_all add: binade_def n_def)
  have "(2::real) ^ (bitLength n - 1) \<le> real n" using of_nat_mono[OF b(1), where 'a = real] by simp
  with n(2) have "(2::real) ^ (bitLength n - 1) \<le> \<bar>x\<bar>" by linarith
  then have lo: "2 powi binade x \<le> \<bar>x\<bar>"
    by (simp add: e(1) power_int_def)
  have "n + 1 \<le> 2 ^ bitLength n" using b(2) by simp
  from of_nat_mono[OF this, where 'a = real] have "real n + 1 \<le> 2 ^ bitLength n" by simp
  with n(3) have "\<bar>x\<bar> < 2 ^ bitLength n" by linarith
  then have hi: "\<bar>x\<bar> < 2 powi (binade x + 1)"
    by (simp add: e(2) power_int_def)
  from lo hi show ?thesis ..
next
  case False
  define y where "y = 1 / \<bar>x\<bar>"
  have xp: "0 < \<bar>x\<bar>" "\<bar>x\<bar> < 1" using assms False by simp_all
  then have y1: "1 < y" by (simp add: y_def)
  define m where "m = nat (\<lceil>y\<rceil> - 1)"
  have m: "0 < m" "real m < y" "y \<le> real m + 1"
  proof -
    have "2 \<le> \<lceil>y\<rceil>" using y1 by linarith
    then show "0 < m" by (simp add: m_def)
    have "real_of_int (\<lceil>y\<rceil> - 1) < y" by linarith
    moreover have "real m = real_of_int (\<lceil>y\<rceil> - 1)" using \<open>2 \<le> \<lceil>y\<rceil>\<close> by (simp add: m_def)
    ultimately show "real m < y" by simp
    have "y \<le> real_of_int \<lceil>y\<rceil>" by linarith
    then show "y \<le> real m + 1" using \<open>real m = real_of_int (\<lceil>y\<rceil> - 1)\<close> by simp
  qed
  let ?k = "bitLength m"
  from bitLength_bounds[OF m(1)] have b: "2 ^ (?k - 1) \<le> m" "m < 2 ^ ?k" by simp_all
  have pos: "0 < ?k" using m(1) by (simp add: bitLength.simps)
  have e: "binade x = - int ?k" using False by (simp add: binade_def m_def y_def)
  have "m + 1 \<le> 2 ^ ?k" using b(2) by simp
  from of_nat_mono[OF this, where 'a = real] have "real m + 1 \<le> 2 ^ ?k" by simp
  with m(3) have yk: "y \<le> 2 ^ ?k" by linarith
  have "(2::real) ^ (?k - 1) \<le> real m" using of_nat_mono[OF b(1), where 'a = real] by simp
  with m(2) have yk1: "2 ^ (?k - 1) < y" by linarith
  have lo: "2 powi binade x \<le> \<bar>x\<bar>"
  proof -
    have "1 / 2 ^ ?k \<le> 1 / y" using yk y1 by (simp add: frac_le)
    moreover have "1 / y = \<bar>x\<bar>" by (simp add: y_def)
    ultimately show ?thesis by (simp add: e power_int_minus inverse_eq_divide)
  qed
  have hi: "\<bar>x\<bar> < 2 powi (binade x + 1)"
  proof -
    have "1 / y < 1 / 2 ^ (?k - 1)" using yk1 by (simp add: frac_less2)
    moreover have "1 / y = \<bar>x\<bar>" by (simp add: y_def)
    moreover have "binade x + 1 = - int (?k - 1)" using pos by (simp add: e)
    ultimately show ?thesis by (simp add: power_int_minus inverse_eq_divide)
  qed
  from lo hi show ?thesis ..
qed

lemma ulp_pos: "0 < ulp x"
  by (simp add: ulp_def Let_def)

lemma roundHalfEven_error: "\<bar>of_int (roundHalfEven y) - y\<bar> \<le> 1 / 2"
  by (auto simp: roundHalfEven_def Let_def abs_real_def not_less) linarith+

lemma roundToDouble_error: "\<bar>roundToDouble x - x\<bar> \<le> ulp x / 2"
proof (cases "x = 0")
  case True
  then show ?thesis using ulp_pos[of x] by (simp add: roundToDouble_def)
next
  case False
  have "roundToDouble x - x = (of_int (roundHalfEven (x / ulp x)) - x / ulp x) * ulp x"
    using False ulp_pos[of x] by (simp add: roundToDouble_def field_simps)
  then have "\<bar>roundToDouble x - x\<bar> = \<bar>of_int (roundHalfEven (x / ulp x)) - x / ulp x\<bar> * ulp x"
    using ulp_pos[of x] by (simp add: abs_mult)
  also have "\<dots> \<le> 1 / 2 * ulp x"
    using roundHalfEven_error[of "x / ulp x"] ulp_pos[of x] by (intro mult_right_mono) simp_all
  finally show ?thesis by simp
qed

subsection \<open>The underrun timer\<close>

lemma scheduleBufferUnderrunTimer_cases:
  "scheduleBufferUnderrunTimer s =
     (case (lastInputDatarate s, txDatarate s) of
        (Fin inR, Fin txR) \<Rightarrow>
          if inR < txR
          then s\<lparr>bufferUnderrunTimer := Some
                 ((- real_of_int (lastInputProgressPosition s) + inR * lastInputProgressTime s
                   + real_of_int (lastTxProgressPosition s) - txR * lastTxProgressTime s)
                  / (inR - txR))\<rparr>
          else s\<lparr>bufferUnderrunTimer := None\<rparr>
      | _ \<Rightarrow> s\<lparr>bufferUnderrunTimer := None\<rparr>)"
  by (cases "lastInputDatarate s"; cases "txDatarate s")
     (simp_all add: scheduleBufferUnderrunTimer_def Let_def)

lemma scheduleBufferUnderrunTimer_frame:
  "\<exists>t. scheduleBufferUnderrunTimer s = s\<lparr>bufferUnderrunTimer := t\<rparr>"
  by (cases "lastInputDatarate s"; cases "txDatarate s")
     (auto simp: scheduleBufferUnderrunTimer_cases)

lemma scheduleBufferUnderrunTimer_idle:
  "\<not> dbl_less (lastInputDatarate s) (txDatarate s) \<Longrightarrow>
   scheduleBufferUnderrunTimer s = s\<lparr>bufferUnderrunTimer := None\<rparr>"
  by (cases "lastInputDatarate s"; cases "txDatarate s")
     (auto simp: scheduleBufferUnderrunTimer_cases)

lemma underrun_scheduled_iff:
  "bufferUnderrunTimer (scheduleBufferUnderrunTimer s) \<noteq> None
     \<longleftrightarrow> dbl_less (lastInputDatarate s) (txDatarate s)"
  by (cases "lastInputDatarate s"; cases "txDatarate s")
     (simp_all add: scheduleBufferUnderrunTimer_cases)

text \<open>
  With the input rate below the transmission rate the two lines cross at exactly one time,
  and that is the time the timer gets.
\<close>

lemma underrun_time_intersection:
  assumes "dbl_less (lastInputDatarate s) (txDatarate s)"
  shows "\<exists>t. bufferUnderrunTimer (scheduleBufferUnderrunTimer s) = Some t
           \<and> inputProgressPositionAt s t = txProgressPositionAt s t
           \<and> inputProgressPositionAt s t \<noteq> None
           \<and> (\<forall>u. inputProgressPositionAt s u = txProgressPositionAt s u \<longrightarrow> u = t)"
proof -
  from assms obtain inR txR where
    rates: "lastInputDatarate s = Fin inR" "txDatarate s = Fin txR" "inR < txR"
    by (cases "lastInputDatarate s"; cases "txDatarate s") auto
  define t where
    "t = (- real_of_int (lastInputProgressPosition s) + inR * lastInputProgressTime s
          + real_of_int (lastTxProgressPosition s) - txR * lastTxProgressTime s)
         / (inR - txR)"
  have ne: "inR - txR \<noteq> 0" using rates by simp
  have sched: "bufferUnderrunTimer (scheduleBufferUnderrunTimer s) = Some t"
    using rates by (simp add: scheduleBufferUnderrunTimer_cases t_def)
  have teq:
    "t * (inR - txR) =
       - real_of_int (lastInputProgressPosition s) + inR * lastInputProgressTime s
       + real_of_int (lastTxProgressPosition s) - txR * lastTxProgressTime s"
    using ne by (simp add: t_def)
  have cross:
    "real_of_int (lastInputProgressPosition s) + inR * (u - lastInputProgressTime s)
       = real_of_int (lastTxProgressPosition s) + txR * (u - lastTxProgressTime s)
     \<longleftrightarrow> u = t" for u
  proof -
    have "real_of_int (lastInputProgressPosition s) + inR * (u - lastInputProgressTime s)
            = real_of_int (lastTxProgressPosition s) + txR * (u - lastTxProgressTime s)
          \<longleftrightarrow> u * (inR - txR) = t * (inR - txR)"
      unfolding teq by (simp add: algebra_simps)
    also have "\<dots> \<longleftrightarrow> u = t" using ne by simp
    finally show ?thesis .
  qed
  show ?thesis
    using sched cross rates by (auto simp: inputProgressPositionAt_def txProgressPositionAt_def)
qed

subsection \<open>Input that keeps pace\<close>

lemma startTx_keeps_pace:
  assumes "startTx cfg e p d pos s = Inr s'" "\<not> dbl_less d (Fin (dataratePar cfg))"
  shows "bufferUnderrunTimer s' = None \<and> txDatarate s' = Fin (dataratePar cfg)"
  using assms
  by (auto simp: startTx_def Let_def scheduleTxEndTimer_def scheduleBufferUnderrunTimer_idle
           split: if_splits)

lemma progressTx_keeps_pace:
  assumes "progressTx cfg e p d pos s = Inr s'" "\<not> dbl_less d (txDatarate s)"
  shows "bufferUnderrunTimer s' = None \<and> txDatarate s' = txDatarate s"
  using assms
  by (auto simp: progressTx_def Let_def scheduleTxEndTimer_def scheduleBufferUnderrunTimer_idle
           split: if_splits option.splits sum.splits)

lemma endTx_timer:
  assumes "endTx cfg s = Inr s'"
  shows "bufferUnderrunTimer s' = bufferUnderrunTimer s \<and> txDatarate s' = NaN"
  using assms
  by (auto simp: endTx_def Let_def clearTxState_def notifyProducer_def
           split: if_splits option.splits)

lemma abortTx_timer:
  assumes "abortTx cfg e s = Inr s'"
  shows "bufferUnderrunTimer s' = bufferUnderrunTimer s \<and> txDatarate s' = NaN"
  using assms
  by (auto simp: abortTx_def Let_def clearTxState_def notifyProducer_def
           split: if_splits option.splits sum.splits)

lemma paceInvariant_initial: "paceInvariant cfg initialTransmitter"
  by (simp add: paceInvariant_def initialTransmitter_def)

lemma step_keeps_pace:
  assumes "step base cfg c s = Inr s'" "keepsPace cfg c" "paceInvariant cfg s"
  shows "paceInvariant cfg s'"
proof (cases c)
  case (Pair e cl)
  show ?thesis
  proof (cases cl)
    case (PushPacketStart p d)
    with Pair assms have "\<not> dbl_less d (Fin (dataratePar cfg))" by (cases d) auto
    with Pair PushPacketStart assms(1) show ?thesis
      by (auto simp: paceInvariant_def pushPacketStart_def dest: startTx_keeps_pace)
  next
    case (PushPacketProgress p d pos)
    with Pair assms have nl: "\<not> dbl_less d (Fin (dataratePar cfg))" by (cases d) auto
    have nl2: "\<not> dbl_less d (txDatarate s)"
      using nl assms(3) by (cases d) (auto simp: paceInvariant_def)
    show ?thesis
    proof (cases "isTransmitting s")
      case True
      with Pair PushPacketProgress assms(1) have "progressTx cfg e p d pos s = Inr s'"
        by (simp add: pushPacketProgress_def)
      from progressTx_keeps_pace[OF this nl2] assms(3) show ?thesis
        by (auto simp: paceInvariant_def)
    next
      case False
      with Pair PushPacketProgress assms(1) have "startTx cfg e p d pos s = Inr s'"
        by (simp add: pushPacketProgress_def)
      from startTx_keeps_pace[OF this nl] show ?thesis
        by (auto simp: paceInvariant_def)
    qed
  next
    case (PushPacketEnd p)
    with Pair assms(1) have "progressTx cfg e p NaN (getTotalLength p) s = Inr s'"
      by (auto simp: pushPacketEnd_def split: if_splits)
    from progressTx_keeps_pace[OF this] assms(3) show ?thesis
      by (auto simp: paceInvariant_def)
  next
    case EndTimerExpires
    with Pair assms(1) have "endTx cfg (s\<lparr>txEndTimer := None\<rparr>) = Inr s'"
      by (simp add: handleMessageWhenUp_def)
    from endTx_timer[OF this] assms(3) show ?thesis
      by (auto simp: paceInvariant_def)
  next
    case StopOperation
    with Pair assms(1) have "abortTx cfg e s = Inr s' \<or> s' = s"
      by (auto simp: handleStopOperation_def split: if_splits)
    with assms(3) show ?thesis
      by (auto simp: paceInvariant_def dest: abortTx_timer)
  next
    case CrashOperation
    with Pair assms(1) have "abortTx cfg e s = Inr s' \<or> s' = s"
      by (auto simp: handleCrashOperation_def split: if_splits)
    with assms(3) show ?thesis
      by (auto simp: paceInvariant_def dest: abortTx_timer)
  qed
qed

lemma run_keeps_pace:
  "run base cfg cs s = Inr s' \<Longrightarrow> \<forall>c \<in> set cs. keepsPace cfg c \<Longrightarrow> paceInvariant cfg s
     \<Longrightarrow> paceInvariant cfg s'"
proof (induction cs arbitrary: s)
  case Nil
  then show ?case by simp
next
  case (Cons c cs)
  then show ?case
    by (auto split: sum.splits dest: step_keeps_pace)
qed

lemma keepsPace_take:
  "\<forall>c \<in> set cs. keepsPace cfg c \<Longrightarrow> \<forall>c \<in> set (take n cs). keepsPace cfg c"
  by (auto dest: in_set_takeD)

text \<open>
  C1. \<open>scheduleBufferUnderrunTimer\<close> leaves the underrun timer scheduled if and only if the
  last input rate is strictly below the committed transmission rate (a comparison with NaN
  is false). When it is scheduled, its time is the one time at which the two linear
  position functions have the same value. When the condition does not hold the timer is
  cancelled and nothing else changes. Hence, for every sequence of calls in which every
  input rate is at least the configured transmission rate, the underrun timer is not
  scheduled after any prefix of the sequence, so it never fires. Rates, times and the
  division are exact (real numbers).
\<close>

theorem buffer_underrun_timer_schedule:
  "(bufferUnderrunTimer (scheduleBufferUnderrunTimer s) \<noteq> None
      \<longleftrightarrow> dbl_less (lastInputDatarate s) (txDatarate s))
   \<and> (dbl_less (lastInputDatarate s) (txDatarate s) \<longrightarrow>
        (\<exists>t. bufferUnderrunTimer (scheduleBufferUnderrunTimer s) = Some t
           \<and> inputProgressPositionAt s t = txProgressPositionAt s t
           \<and> inputProgressPositionAt s t \<noteq> None
           \<and> (\<forall>u. inputProgressPositionAt s u = txProgressPositionAt s u \<longrightarrow> u = t)))
   \<and> (\<not> dbl_less (lastInputDatarate s) (txDatarate s) \<longrightarrow>
        scheduleBufferUnderrunTimer s = s\<lparr>bufferUnderrunTimer := None\<rparr>)
   \<and> ((\<forall>c \<in> set cs. keepsPace cfg c) \<longrightarrow>
        (\<forall>n s'. run base cfg (take n cs) initialTransmitter = Inr s'
                  \<longrightarrow> bufferUnderrunTimer s' = None))"
proof (intro conjI impI allI)
  show "(bufferUnderrunTimer (scheduleBufferUnderrunTimer s) \<noteq> None)
      = dbl_less (lastInputDatarate s) (txDatarate s)"
    by (rule underrun_scheduled_iff)
next
  assume "dbl_less (lastInputDatarate s) (txDatarate s)"
  then show "\<exists>t. bufferUnderrunTimer (scheduleBufferUnderrunTimer s) = Some t
           \<and> inputProgressPositionAt s t = txProgressPositionAt s t
           \<and> inputProgressPositionAt s t \<noteq> None
           \<and> (\<forall>u. inputProgressPositionAt s u = txProgressPositionAt s u \<longrightarrow> u = t)"
    by (rule underrun_time_intersection)
next
  assume "\<not> dbl_less (lastInputDatarate s) (txDatarate s)"
  then show "scheduleBufferUnderrunTimer s = s\<lparr>bufferUnderrunTimer := None\<rparr>"
    by (rule scheduleBufferUnderrunTimer_idle)
next
  fix n s'
  assume pace: "\<forall>c \<in> set cs. keepsPace cfg c"
    and r: "run base cfg (take n cs) initialTransmitter = Inr s'"
  from run_keeps_pace[OF r keepsPace_take[OF pace] paceInvariant_initial]
  show "bufferUnderrunTimer s' = None"
    by (simp add: paceInvariant_def)
qed

theorem buffer_underrun_timer_schedule_witness:
  "dbl_less (lastInputDatarate exampleTransmitting) (txDatarate exampleTransmitting)
   \<and> bufferUnderrunTimer (scheduleBufferUnderrunTimer exampleTransmitting) = Some 2
   \<and> inputProgressPositionAt exampleTransmitting 2 = Some 16
   \<and> txProgressPositionAt exampleTransmitting 2 = Some 16
   \<and> \<not> dbl_less (lastInputDatarate initialTransmitter) (txDatarate initialTransmitter)
   \<and> bufferUnderrunTimer (scheduleBufferUnderrunTimer initialTransmitter) = None
   \<and> list_all (keepsPace exampleConfig) exampleCalls
   \<and> (\<exists>s'. run (\<lambda>n. Inr) exampleConfig (take 4 exampleCalls) initialTransmitter = Inr s'
            \<and> bufferUnderrunTimer s' = None)"
proof -
  have less: "dbl_less (lastInputDatarate exampleTransmitting) (txDatarate exampleTransmitting)"
    by (simp add: exampleTransmitting_def)
  have notless: "\<not> dbl_less (lastInputDatarate initialTransmitter) (txDatarate initialTransmitter)"
    by (simp add: initialTransmitter_def)
  have pace: "\<forall>c \<in> set exampleCalls. keepsPace exampleConfig c"
    by (simp add: exampleCalls_def exampleConfig_def)
  have runs: "\<exists>s'. run (\<lambda>n. Inr) exampleConfig (take 4 exampleCalls) initialTransmitter = Inr s'"
    by (simp add: call_defs example_defs)
  have at2: "inputProgressPositionAt exampleTransmitting 2 = Some 16"
     "txProgressPositionAt exampleTransmitting 2 = Some 16"
    by (simp_all add: inputProgressPositionAt_def txProgressPositionAt_def exampleTransmitting_def)
  note inst = buffer_underrun_timer_schedule
      [of exampleTransmitting exampleCalls exampleConfig "\<lambda>n. Inr"]
  note inst0 = buffer_underrun_timer_schedule
      [of initialTransmitter exampleCalls exampleConfig "\<lambda>n. Inr"]
  from inst less obtain t where
    t: "bufferUnderrunTimer (scheduleBufferUnderrunTimer exampleTransmitting) = Some t"
       "\<forall>u. inputProgressPositionAt exampleTransmitting u = txProgressPositionAt exampleTransmitting u
            \<longrightarrow> u = t"
    by blast
  from t(2) [rule_format, of 2] at2 have "t = 2" by simp
  moreover from inst pace runs
  have "\<exists>s'. run (\<lambda>n. Inr) exampleConfig (take 4 exampleCalls) initialTransmitter = Inr s'
            \<and> bufferUnderrunTimer s' = None"
    by blast
  moreover from inst0 notless
  have "bufferUnderrunTimer (scheduleBufferUnderrunTimer initialTransmitter) = None"
    by simp
  ultimately show ?thesis using less notless pace t(1) at2 by (simp add: list_all_iff)
qed

subsection \<open>Failures\<close>

text \<open>
  C2. When the buffer underrun timer is delivered, \<open>handleMessageWhenUp\<close> throws the runtime
  error "Buffer underrun during transmission", whatever the state of the transmitter (in
  particular while a transmission is in progress): the call returns no state, so nothing is
  retried or recovered.
\<close>

theorem underrun_timer_is_fatal:
  "handleMessageWhenUp base cfg BufferUnderrunTimer s =
     Inl (RuntimeError ''Buffer underrun during transmission'')"
  by (simp add: handleMessageWhenUp_def)

text \<open>
  C6. A transition called in the wrong state fails with the assertion at its entry:
  \<open>startTx\<close> while a transmission is active, and \<open>progressTx\<close>, \<open>endTx\<close> and \<open>abortTx\<close>
  while the transmitter is idle. The result is the failure, never a state.
\<close>

theorem state_preconditions_fail_fast:
  "(isTransmitting s \<longrightarrow> startTx cfg e p datarate position s = Inl AssertionFailure)
   \<and> (\<not> isTransmitting s \<longrightarrow>
        progressTx cfg e p datarate position s = Inl AssertionFailure
        \<and> endTx cfg s = Inl AssertionFailure
        \<and> abortTx cfg e s = Inl AssertionFailure)"
  by (simp add: startTx_def progressTx_def endTx_def abortTx_def)

theorem state_preconditions_fail_fast_witness:
  "isTransmitting exampleTransmitting
   \<and> startTx exampleConfig \<lparr>simTime = 1, clockTime = 1\<rparr> examplePacket (Fin 8) 0 exampleTransmitting
       = Inl AssertionFailure
   \<and> \<not> isTransmitting initialTransmitter
   \<and> progressTx exampleConfig \<lparr>simTime = 1, clockTime = 1\<rparr> examplePacket (Fin 8) 0 initialTransmitter
       = Inl AssertionFailure
   \<and> endTx exampleConfig initialTransmitter = Inl AssertionFailure
   \<and> abortTx exampleConfig \<lparr>simTime = 1, clockTime = 1\<rparr> initialTransmitter = Inl AssertionFailure"
proof -
  have a: "isTransmitting exampleTransmitting"
    by (simp add: isTransmitting_def exampleTransmitting_def)
  have b: "\<not> isTransmitting initialTransmitter"
    by (simp add: isTransmitting_def initialTransmitter_def)
  show ?thesis
    using a b
      state_preconditions_fail_fast [of exampleTransmitting exampleConfig
        "\<lparr>simTime = 1, clockTime = 1\<rparr>" examplePacket "Fin 8" 0]
      state_preconditions_fail_fast [of initialTransmitter exampleConfig
        "\<lparr>simTime = 1, clockTime = 1\<rparr>" examplePacket "Fin 8" 0]
    by simp
qed

subsection \<open>Abort\<close>

lemma abortTx_result:
  assumes "txSignal s = Some oldSignal"
    and "0 \<le> toBits cfg (txDatarate s) (simTimeDbl cfg (simTime e - txStartTime s))"
    and "toBits cfg (txDatarate s) (simTimeDbl cfg (simTime e - txStartTime s))
           \<le> getTotalLength (encapsulatedPacket oldSignal)"
  shows "abortTx cfg e s =
     (let elapsed = simTime e - txStartTime s;
          n = toBits cfg (txDatarate s) (simTimeDbl cfg elapsed);
          p1 = (encapsulatedPacket oldSignal)
                 \<lparr>content := take (nat n) (content (encapsulatedPacket oldSignal)),
                  bitError := True\<rparr>;
          sig = \<lparr>encapsulatedPacket = p1, duration = elapsed\<rparr>
      in Inr (notifyProducer cfg p1 (clearTxState (s\<lparr>txSignal := None,
            notifications := notifications s @
               [DeletedSignal oldSignal, PacketProcessed p1,
                TransmissionEnded sig, SignalEnd sig (transmissionId p1)]\<rparr>))))"
  using assms
  by (simp add: abortTx_def isTransmitting_def Let_def eraseAtBack_def encodePacket_def
        getTotalLength_def)

lemma abortTx_fails:
  assumes "txSignal s = Some oldSignal"
    and "\<not> (0 \<le> toBits cfg (txDatarate s) (simTimeDbl cfg (simTime e - txStartTime s))
           \<and> toBits cfg (txDatarate s) (simTimeDbl cfg (simTime e - txStartTime s))
                \<le> getTotalLength (encapsulatedPacket oldSignal))"
  shows "abortTx cfg e s = Inl ChunkUsageError"
  using assms
  by (auto simp: abortTx_def isTransmitting_def Let_def eraseAtBack_def)

text \<open>
  C3, as the code has it. The bit count of an abort is the floor of the double precision
  product of the committed rate \<open>q\<close> and of \<open>elapsed = simTime() - txStartTime\<close> converted
  to a double. The abort delivers a packet exactly when that count lies between 0 and the
  length of the packet in flight (otherwise the packet library rejects the truncation and
  the call fails). The delivered packet is the original cut from the back to its first
  count bits, it is marked with a bit error, the signal that carries it has the duration
  \<open>elapsed\<close>, and its length does not exceed the original length.
\<close>

theorem abort_truncates:
  assumes "txSignal s = Some oldSignal" and "txDatarate s = Fin q"
  shows "((\<exists>s'. abortTx cfg e s = Inr s') \<longleftrightarrow>
            (0 \<le> \<lfloor>doubleProduct q (simTimeDbl cfg (simTime e - txStartTime s))\<rfloor>
             \<and> \<lfloor>doubleProduct q (simTimeDbl cfg (simTime e - txStartTime s))\<rfloor>
                  \<le> getTotalLength (encapsulatedPacket oldSignal)))
    \<and> (\<forall>s'. abortTx cfg e s = Inr s' \<longrightarrow>
          (\<exists>p1 sig.
             notifications s' = notifications s @
               [DeletedSignal oldSignal, PacketProcessed p1,
                TransmissionEnded sig, SignalEnd sig (transmissionId p1)]
               @ (if producer cfg then [PushPacketProcessed p1 True, CanPushPacketChanged] else [])
             \<and> encapsulatedPacket sig = p1
             \<and> duration sig = simTime e - txStartTime s
             \<and> bitError p1
             \<and> transmissionId p1 = transmissionId (encapsulatedPacket oldSignal)
             \<and> getTotalLength p1 = \<lfloor>doubleProduct q (simTimeDbl cfg (simTime e - txStartTime s))\<rfloor>
             \<and> content p1 = take (nat \<lfloor>doubleProduct q (simTimeDbl cfg (simTime e - txStartTime s))\<rfloor>)
                               (content (encapsulatedPacket oldSignal))
             \<and> getTotalLength p1 \<le> getTotalLength (encapsulatedPacket oldSignal)))"
proof -
  define n where "n = \<lfloor>doubleProduct q (simTimeDbl cfg (simTime e - txStartTime s))\<rfloor>"
  have tb: "toBits cfg (txDatarate s) (simTimeDbl cfg (simTime e - txStartTime s)) = n"
    using assms(2) by (simp add: n_def)
  show ?thesis
  proof (cases "0 \<le> n \<and> n \<le> getTotalLength (encapsulatedPacket oldSignal)")
    case True
    then have r: "0 \<le> n" "n \<le> getTotalLength (encapsulatedPacket oldSignal)"
      by simp_all
    have res: "abortTx cfg e s =
       (let p1 = (encapsulatedPacket oldSignal)
                   \<lparr>content := take (nat n) (content (encapsulatedPacket oldSignal)),
                    bitError := True\<rparr>;
            sig = \<lparr>encapsulatedPacket = p1, duration = simTime e - txStartTime s\<rparr>
        in Inr (notifyProducer cfg p1 (clearTxState (s\<lparr>txSignal := None,
              notifications := notifications s @
                 [DeletedSignal oldSignal, PacketProcessed p1,
                  TransmissionEnded sig, SignalEnd sig (transmissionId p1)]\<rparr>))))"
      using abortTx_result[OF assms(1), of cfg e] r by (simp add: tb Let_def)
    have nn: "nat n \<le> length (content (encapsulatedPacket oldSignal))"
      using r by (simp add: getTotalLength_def)
    show ?thesis
      unfolding n_def[symmetric] using r nn
      by (auto simp: res Let_def notifyProducer_def clearTxState_def getTotalLength_def min_def)
  next
    case False
    then have "\<not> (0 \<le> toBits cfg (txDatarate s) (simTimeDbl cfg (simTime e - txStartTime s))
           \<and> toBits cfg (txDatarate s) (simTimeDbl cfg (simTime e - txStartTime s))
                \<le> getTotalLength (encapsulatedPacket oldSignal))"
      by (simp add: tb)
    from abortTx_fails[OF assms(1) this] False show ?thesis
      unfolding n_def[symmetric] by simp
  qed
qed

theorem abort_truncates_witness:
  "txSignal exampleTransmitting = Some exampleSignal
   \<and> txDatarate exampleTransmitting = Fin 8
   \<and> (\<exists>s' p1 sig.
         abortTx exampleConfig \<lparr>simTime = 5 / 4, clockTime = 5 / 4\<rparr> exampleTransmitting = Inr s'
         \<and> notifications s' = notifications exampleTransmitting @
               [DeletedSignal exampleSignal, PacketProcessed p1,
                TransmissionEnded sig, SignalEnd sig 7,
                PushPacketProcessed p1 True, CanPushPacketChanged]
         \<and> encapsulatedPacket sig = p1 \<and> duration sig = 5 / 4 \<and> bitError p1
         \<and> getTotalLength p1 = 10 \<and> content p1 = replicate 10 True)"
proof -
  have a: "txSignal exampleTransmitting = Some exampleSignal"
    and b: "txDatarate exampleTransmitting = Fin 8"
    by (simp_all add: exampleTransmitting_def)
  have d: "\<lfloor>doubleProduct 8 (simTimeDbl exampleConfig
              (simTime \<lparr>simTime = 5 / 4, clockTime = 5 / 4\<rparr> - txStartTime exampleTransmitting))\<rfloor>
           = (10::int)"
    by (simp add: example_defs double_defs Let_def)
  have c: "getTotalLength (encapsulatedPacket exampleSignal) = 16"
    by (simp add: example_defs getTotalLength_def)
  note inst = abort_truncates [OF a b, of exampleConfig "\<lparr>simTime = 5 / 4, clockTime = 5 / 4\<rparr>",
      unfolded d c]
  from inst obtain s' where
    s': "abortTx exampleConfig \<lparr>simTime = 5 / 4, clockTime = 5 / 4\<rparr> exampleTransmitting = Inr s'"
    by auto
  with inst obtain p1 sig where
    props: "notifications s' = notifications exampleTransmitting @
               [DeletedSignal exampleSignal, PacketProcessed p1,
                TransmissionEnded sig, SignalEnd sig (transmissionId p1)]
               @ (if producer exampleConfig then [PushPacketProcessed p1 True, CanPushPacketChanged] else [])"
      "encapsulatedPacket sig = p1"
      "duration sig = simTime \<lparr>simTime = 5 / 4, clockTime = 5 / 4\<rparr> - txStartTime exampleTransmitting"
      "bitError p1"
      "transmissionId p1 = transmissionId (encapsulatedPacket exampleSignal)"
      "getTotalLength p1 = 10"
      "content p1 = take (nat 10) (content (encapsulatedPacket exampleSignal))"
    by blast
  show ?thesis
    using a b s' props
    by (intro conjI exI[of _ s'] exI[of _ p1] exI[of _ sig]) (simp_all add: example_defs)
qed

text \<open>
  C3 with the exact product fails at 100 bits per second after 0.57 seconds: the floor of
  the exact product is 57, the double nearest to 0.57 is below it, the double precision
  product is below 57, and the abort delivers 56 bits.
\<close>

theorem abort_exact_floor_counterexample:
  "txSignal roundingTransmitting = Some roundingSignal
   \<and> txDatarate roundingTransmitting = Fin 100
   \<and> txStartTime roundingTransmitting = 0
   \<and> \<lfloor>(100::real) * (57 / 100 - 0)\<rfloor> = 57
   \<and> getTotalLength roundingDelivered = 56
   \<and> abortTx roundingConfig \<lparr>simTime = 57 / 100, clockTime = 57 / 100\<rparr> roundingTransmitting =
       Inr \<lparr>txSignal = None, txDatarate = NaN, txStartTime = -1, txStartClockTime = -1,
            lastTxProgressTime = -1, lastTxProgressPosition = -1, lastInputDatarate = NaN,
            lastInputProgressTime = -1, lastInputProgressPosition = -1,
            txEndTimer = Some (57 / 100), bufferUnderrunTimer = None,
            notifications =
              [TransmissionStarted roundingSignal, SignalStart roundingSignal 7,
               DeletedSignal roundingSignal, PacketProcessed roundingDelivered,
               TransmissionEnded \<lparr>encapsulatedPacket = roundingDelivered, duration = 57 / 100\<rparr>,
               SignalEnd \<lparr>encapsulatedPacket = roundingDelivered, duration = 57 / 100\<rparr> 7,
               PushPacketProcessed roundingDelivered True, CanPushPacketChanged]\<rparr>"
  by (simp add: call_defs rounding_defs example_defs double_defs)

subsection \<open>Transmitting states that a sequence of calls reaches\<close>

lemma startTx_transmittingInvariant:
  "startTx cfg e p d pos s = Inr s' \<Longrightarrow> transmittingInvariant cfg s'"
proof -
  obtain t where fr: "\<And>x. scheduleBufferUnderrunTimer x = x\<lparr>bufferUnderrunTimer := t x\<rparr>"
    using scheduleBufferUnderrunTimer_frame by metis
  show "startTx cfg e p d pos s = Inr s' \<Longrightarrow> transmittingInvariant cfg s'"
    by (auto simp: startTx_def Let_def scheduleTxEndTimer_def fr transmittingInvariant_def
          split: if_splits)
qed

lemma progressTx_transmittingInvariant:
  "progressTx cfg e p d pos s = Inr s' \<Longrightarrow> transmittingInvariant cfg s
     \<Longrightarrow> transmittingInvariant cfg s'"
proof -
  obtain t where fr: "\<And>x. scheduleBufferUnderrunTimer x = x\<lparr>bufferUnderrunTimer := t x\<rparr>"
    using scheduleBufferUnderrunTimer_frame by metis
  show "progressTx cfg e p d pos s = Inr s' \<Longrightarrow> transmittingInvariant cfg s
     \<Longrightarrow> transmittingInvariant cfg s'"
    by (auto simp: progressTx_def Let_def scheduleTxEndTimer_def fr transmittingInvariant_def
          split: if_splits option.splits sum.splits)
qed

lemma endTx_idle: "endTx cfg s = Inr s' \<Longrightarrow> txSignal s' = None"
  by (auto simp: endTx_def Let_def clearTxState_def notifyProducer_def
        split: if_splits option.splits)

lemma abortTx_idle: "abortTx cfg e s = Inr s' \<Longrightarrow> txSignal s' = None"
  by (auto simp: abortTx_def Let_def clearTxState_def notifyProducer_def
        split: if_splits option.splits sum.splits)

lemma step_transmittingInvariant:
  assumes "step base cfg c s = Inr s'" "transmittingInvariant cfg s"
  shows "transmittingInvariant cfg s'"
proof (cases c)
  case (Pair e cl)
  show ?thesis
  proof (cases cl)
    case (PushPacketStart p d)
    with Pair assms(1) show ?thesis
      by (auto simp: pushPacketStart_def dest: startTx_transmittingInvariant)
  next
    case (PushPacketProgress p d pos)
    with Pair assms show ?thesis
      by (auto simp: pushPacketProgress_def split: if_splits
            dest: startTx_transmittingInvariant progressTx_transmittingInvariant)
  next
    case (PushPacketEnd p)
    with Pair assms show ?thesis
      by (auto simp: pushPacketEnd_def split: if_splits
            dest: progressTx_transmittingInvariant)
  next
    case EndTimerExpires
    with Pair assms(1) have "txSignal s' = None"
      by (auto simp: handleMessageWhenUp_def dest: endTx_idle)
    then show ?thesis by (simp add: transmittingInvariant_def)
  next
    case StopOperation
    with Pair assms(1) have "txSignal s' = None \<or> s' = s"
      by (auto simp: handleStopOperation_def split: if_splits dest: abortTx_idle)
    with assms(2) show ?thesis by (auto simp: transmittingInvariant_def)
  next
    case CrashOperation
    with Pair assms(1) have "txSignal s' = None \<or> s' = s"
      by (auto simp: handleCrashOperation_def split: if_splits dest: abortTx_idle)
    with assms(2) show ?thesis by (auto simp: transmittingInvariant_def)
  qed
qed

lemma run_transmittingInvariant:
  "run base cfg cs s = Inr s' \<Longrightarrow> transmittingInvariant cfg s \<Longrightarrow> transmittingInvariant cfg s'"
proof (induction cs arbitrary: s)
  case Nil
  then show ?case by simp
next
  case (Cons c cs)
  then show ?case
    by (auto split: sum.splits dest: step_transmittingInvariant)
qed

lemma reachable_transmittingInvariant:
  "run base cfg cs initialTransmitter = Inr s' \<Longrightarrow> transmittingInvariant cfg s'"
  by (erule run_transmittingInvariant) (simp add: transmittingInvariant_def initialTransmitter_def)

subsection \<open>Progress with an unchanged packet\<close>

text \<open>
  C4, as the code has it. In every transmitting state that a sequence of calls reaches, a
  progress call whose packet is unchanged, that is, the position that the code
  extrapolates from the last input progress (the last position plus the floor of the
  double precision product of the elapsed time and the last input rate) equals the length
  of the packet and of the packet in flight, or the packet has the data of the packet in
  flight, emits no progress notification: the only effect on the collaborators is that the
  incoming packet is deleted. The signal in flight, the committed rate, the start times
  and the time of the end timer stay as they are. The stored input progress, the stored
  transmission progress and the underrun timer follow the arguments of the call.
\<close>

theorem unchanged_progress_is_silent:
  assumes "run base cfg cs initialTransmitter = Inr s"
    and "txSignal s = Some sig"
    and "(lastInputProgressPosition s
            + toBits cfg (lastInputDatarate s)
                (simTimeDbl cfg (simTime e - lastInputProgressTime s)) = getTotalLength p
          \<and> getTotalLength p = getTotalLength (encapsulatedPacket sig))
         \<or> content p = content (encapsulatedPacket sig)"
  shows "\<exists>s'. progressTx cfg e p datarate position s = Inr s'
           \<and> notifications s' = notifications s @ [DeletedPacket p]
           \<and> txSignal s' = txSignal s
           \<and> txDatarate s' = txDatarate s
           \<and> txStartTime s' = txStartTime s
           \<and> txStartClockTime s' = txStartClockTime s
           \<and> txEndTimer s' = txEndTimer s"
proof -
  from reachable_transmittingInvariant[OF assms(1)] assms(2)
  have inv: "txStartClockTime s \<noteq> -1" "txEndTimer s = Some (txStartClockTime s + duration sig)"
    by (simp_all add: transmittingInvariant_def)
  have unchanged: "isPacketUnchangedSinceLastProgress
      (lastInputProgressPosition s
         + toBits cfg (lastInputDatarate s) (simTimeDbl cfg (simTime e - lastInputProgressTime s)))
      p (encapsulatedPacket sig)"
    using assms(3)
    by (auto simp: isPacketUnchangedSinceLastProgress_def isInputProgressAtEnd_def
          containsSameData_def)
  obtain t where fr: "\<And>x. scheduleBufferUnderrunTimer x = x\<lparr>bufferUnderrunTimer := t x\<rparr>"
    using scheduleBufferUnderrunTimer_frame by metis
  show ?thesis
    using assms(2) inv unchanged
    by (simp add: progressTx_def isTransmitting_def Let_def scheduleTxEndTimer_def fr)
qed

theorem unchanged_progress_is_silent_witness:
  "run (\<lambda>n. Inr) exampleConfig
       [(\<lparr>simTime = 0, clockTime = 0\<rparr>, PushPacketProgress examplePacket (Fin 4) 8)]
       initialTransmitter = Inr exampleTransmitting
   \<and> txSignal exampleTransmitting = Some exampleSignal
   \<and> lastInputProgressPosition exampleTransmitting
        + toBits exampleConfig (lastInputDatarate exampleTransmitting)
            (simTimeDbl exampleConfig
               (simTime \<lparr>simTime = 2, clockTime = 2\<rparr> - lastInputProgressTime exampleTransmitting))
       = getTotalLength examplePacket
   \<and> getTotalLength examplePacket = getTotalLength (encapsulatedPacket exampleSignal)
   \<and> (\<exists>s'. progressTx exampleConfig \<lparr>simTime = 2, clockTime = 2\<rparr> examplePacket (Fin 8) 16
               exampleTransmitting = Inr s'
         \<and> notifications s' = notifications exampleTransmitting @ [DeletedPacket examplePacket]
         \<and> txSignal s' = Some exampleSignal
         \<and> txEndTimer s' = Some 2)"
proof -
  have r: "run (\<lambda>n. Inr) exampleConfig
       [(\<lparr>simTime = 0, clockTime = 0\<rparr>, PushPacketProgress examplePacket (Fin 4) 8)]
       initialTransmitter = Inr exampleTransmitting"
    by (simp add: call_defs example_defs)
  have a: "txSignal exampleTransmitting = Some exampleSignal"
    by (simp add: exampleTransmitting_def)
  have f: "lastInputProgressPosition exampleTransmitting
        + toBits exampleConfig (lastInputDatarate exampleTransmitting)
            (simTimeDbl exampleConfig
               (simTime \<lparr>simTime = 2, clockTime = 2\<rparr> - lastInputProgressTime exampleTransmitting))
       = getTotalLength examplePacket"
    and g: "getTotalLength examplePacket = getTotalLength (encapsulatedPacket exampleSignal)"
    by (simp_all add: example_defs getTotalLength_def double_defs Let_def)
  have h: "txEndTimer exampleTransmitting = Some 2"
    by (simp add: example_defs)
  from f g have disj: "(lastInputProgressPosition exampleTransmitting
        + toBits exampleConfig (lastInputDatarate exampleTransmitting)
            (simTimeDbl exampleConfig
               (simTime \<lparr>simTime = 2, clockTime = 2\<rparr> - lastInputProgressTime exampleTransmitting))
       = getTotalLength examplePacket
       \<and> getTotalLength examplePacket = getTotalLength (encapsulatedPacket exampleSignal))
     \<or> content examplePacket = content (encapsulatedPacket exampleSignal)"
    by simp
  from unchanged_progress_is_silent [OF r a disj, of "Fin 8" 16]
  show ?thesis using r a f g h by auto
qed

text \<open>
  C4 with the exact extrapolation fails at 100 bits per second after 0.57 seconds: the
  exact extrapolation gives 57 bits, the length of the incoming packet and of the packet
  in flight, but the code extrapolates to 56 bits, finds other data in the packet, and
  sends a progress notification.
\<close>

theorem unchanged_progress_exact_counterexample:
  "run (\<lambda>n. Inr) roundingConfig
       [(\<lparr>simTime = 0, clockTime = 0\<rparr>, PushPacketStart roundingPacket (Fin 100))]
       initialTransmitter = Inr roundingTransmitting
   \<and> lastInputDatarate roundingTransmitting = Fin 100
   \<and> lastInputProgressPosition roundingTransmitting
        + \<lfloor>(100::real) * (57 / 100 - lastInputProgressTime roundingTransmitting)\<rfloor>
       = getTotalLength changedPacket
   \<and> getTotalLength changedPacket = getTotalLength (encapsulatedPacket roundingSignal)
   \<and> progressTx roundingConfig \<lparr>simTime = 57 / 100, clockTime = 57 / 100\<rparr> changedPacket
        (Fin 100) 57 roundingTransmitting =
       Inr \<lparr>txSignal = Some \<lparr>encapsulatedPacket = changedPacket, duration = 57 / 100\<rparr>,
            txDatarate = Fin 100, txStartTime = 0, txStartClockTime = 0,
            lastTxProgressTime = 57 / 100, lastTxProgressPosition = 56,
            lastInputDatarate = Fin 100, lastInputProgressTime = 57 / 100,
            lastInputProgressPosition = 57,
            txEndTimer = Some (57 / 100), bufferUnderrunTimer = None,
            notifications =
              [TransmissionStarted roundingSignal, SignalStart roundingSignal 7,
               DeletedSignal roundingSignal,
               SignalProgress \<lparr>encapsulatedPacket = changedPacket, duration = 57 / 100\<rparr> 7 56
                 (57 / 100)]\<rparr>"
  by (simp add: call_defs rounding_defs example_defs double_defs)

subsection \<open>One transmission, reset on end and abort\<close>

text \<open>
  C7. \<open>isTransmitting\<close> holds exactly when \<open>txSignal\<close> is set; the transmitter has one slot
  for the signal in flight and \<open>startTx\<close> refuses to start while it is occupied; and after
  \<open>endTx\<close> or \<open>abortTx\<close> the transmitter is idle and the positions, times and rates of the
  transmission have their unset values (\<open>-1\<close>, and NaN for the rates).
\<close>

theorem single_transmission_and_reset:
  "(isTransmitting s \<longleftrightarrow> txSignal s \<noteq> None)
   \<and> (isTransmitting s \<longrightarrow> startTx cfg e p datarate position s = Inl AssertionFailure)
   \<and> (\<forall>s'. endTx cfg s = Inr s' \<or> abortTx cfg e s = Inr s' \<longrightarrow>
         \<not> isTransmitting s'
         \<and> lastInputProgressPosition s' = -1 \<and> lastInputProgressTime s' = -1
         \<and> lastTxProgressPosition s' = -1 \<and> lastTxProgressTime s' = -1
         \<and> lastInputDatarate s' = NaN \<and> txDatarate s' = NaN
         \<and> txStartTime s' = -1 \<and> txStartClockTime s' = -1)"
  by (auto simp: isTransmitting_def startTx_def endTx_def abortTx_def Let_def clearTxState_def
        notifyProducer_def split: if_splits option.splits sum.splits)

theorem single_transmission_and_reset_witness:
  "isTransmitting exampleTransmitting
   \<and> startTx exampleConfig \<lparr>simTime = 1, clockTime = 1\<rparr> examplePacket (Fin 8) 0 exampleTransmitting
        = Inl AssertionFailure
   \<and> (\<exists>s'. endTx exampleConfig exampleTransmitting = Inr s'
         \<and> \<not> isTransmitting s'
         \<and> lastInputProgressPosition s' = -1 \<and> lastInputProgressTime s' = -1
         \<and> lastTxProgressPosition s' = -1 \<and> lastTxProgressTime s' = -1
         \<and> lastInputDatarate s' = NaN \<and> txDatarate s' = NaN
         \<and> txStartTime s' = -1 \<and> txStartClockTime s' = -1)
   \<and> (\<exists>s'. abortTx exampleConfig \<lparr>simTime = 1, clockTime = 1\<rparr> exampleTransmitting = Inr s'
         \<and> \<not> isTransmitting s'
         \<and> lastInputProgressPosition s' = -1 \<and> lastInputProgressTime s' = -1
         \<and> lastTxProgressPosition s' = -1 \<and> lastTxProgressTime s' = -1
         \<and> lastInputDatarate s' = NaN \<and> txDatarate s' = NaN
         \<and> txStartTime s' = -1 \<and> txStartClockTime s' = -1)"
proof -
  have a: "isTransmitting exampleTransmitting"
    by (simp add: isTransmitting_def exampleTransmitting_def)
  have b: "\<exists>s'. endTx exampleConfig exampleTransmitting = Inr s'"
    by (simp add: call_defs example_defs)
  have c: "\<exists>s'. abortTx exampleConfig \<lparr>simTime = 1, clockTime = 1\<rparr> exampleTransmitting = Inr s'"
    by (simp add: call_defs example_defs double_defs)
  note inst = single_transmission_and_reset
    [of exampleTransmitting exampleConfig "\<lparr>simTime = 1, clockTime = 1\<rparr>" examplePacket "Fin 8" 0]
  from inst a have "startTx exampleConfig \<lparr>simTime = 1, clockTime = 1\<rparr> examplePacket (Fin 8) 0
      exampleTransmitting = Inl AssertionFailure"
    by blast
  moreover from inst b have "\<exists>s'. endTx exampleConfig exampleTransmitting = Inr s'
         \<and> \<not> isTransmitting s'
         \<and> lastInputProgressPosition s' = -1 \<and> lastInputProgressTime s' = -1
         \<and> lastTxProgressPosition s' = -1 \<and> lastTxProgressTime s' = -1
         \<and> lastInputDatarate s' = NaN \<and> txDatarate s' = NaN
         \<and> txStartTime s' = -1 \<and> txStartClockTime s' = -1"
    by blast
  moreover from inst c have "\<exists>s'. abortTx exampleConfig \<lparr>simTime = 1, clockTime = 1\<rparr> exampleTransmitting = Inr s'
         \<and> \<not> isTransmitting s'
         \<and> lastInputProgressPosition s' = -1 \<and> lastInputProgressTime s' = -1
         \<and> lastTxProgressPosition s' = -1 \<and> lastTxProgressTime s' = -1
         \<and> lastInputDatarate s' = NaN \<and> txDatarate s' = NaN
         \<and> txStartTime s' = -1 \<and> txStartClockTime s' = -1"
    by blast
  ultimately show ?thesis using a by blast
qed

subsection \<open>Progress pushed to an idle transmitter\<close>





section \<open>Properties of the path tracker\<close>

lemmas tracker_defs = processEvents_def processPathStart_def processPathElement_def
  processPathEnd_def pathStartChunk_def pathElementChunk_def pathEndChunk_def
  getIncompletePath_def addToIncompletePath_def removeIncompletePath_def
  lookupOrCreate_def getPathVisualization_def matchesPath_def sourceAndDestination_def
  addPathVisualization_def createPathVisualization_def addLength_def countPacket_def
  refreshPathVisualization_def emptyVisualizer_def Let_def

subsection \<open>Incomplete paths\<close>

lemma addToIncompletePath_paths:
  "incompletePaths (addToIncompletePath l c m v) =
     (incompletePaths v)((l, c) \<mapsto>
        (case incompletePaths v (l, c) of
           None \<Rightarrow> [m]
         | Some ids \<Rightarrow> if ids = [] \<or> last ids \<noteq> m then ids @ [m] else ids))"
  by (auto simp: addToIncompletePath_def Let_def last_conv_nth split: option.splits)

lemma addToIncompletePath_others:
  "pathVisualizations (addToIncompletePath l c m v) = pathVisualizations v"
  "objects (addToIncompletePath l c m v) = objects v"
  "opacity (addToIncompletePath l c m v) = opacity v"
  "nextAddress (addToIncompletePath l c m v) = nextAddress v"
  by (simp_all add: addToIncompletePath_def Let_def)

lemma removeIncompletePath_fields:
  "incompletePaths (removeIncompletePath l c v) = (incompletePaths v)((l, c) := None)"
  "pathVisualizations (removeIncompletePath l c v) = pathVisualizations v"
  "objects (removeIncompletePath l c v) = objects v"
  "opacity (removeIncompletePath l c v) = opacity v"
  "nextAddress (removeIncompletePath l c v) = nextAddress v"
  by (simp_all add: removeIncompletePath_def)

lemma addToIncompletePath_adjacentDistinct:
  "adjacentDistinct v \<Longrightarrow> adjacentDistinct (addToIncompletePath l c m v)"
  by (auto simp: adjacentDistinct_def addToIncompletePath_paths distinct_adj_append_iff
           split: option.splits if_splits)

lemma removeIncompletePath_adjacentDistinct:
  "adjacentDistinct v \<Longrightarrow> adjacentDistinct (removeIncompletePath l c v)"
  by (auto simp: adjacentDistinct_def removeIncompletePath_fields split: if_splits)

lemma addLength_incompletePaths: "incompletePaths (addLength a n v) = incompletePaths v"
  by (simp add: addLength_def split: option.splits)

lemma lookupOrCreate_incompletePaths:
  "incompletePaths (fst (lookupOrCreate now l path v)) = incompletePaths v"
  by (simp add: lookupOrCreate_def Let_def addPathVisualization_def split: option.splits)

lemma countPacket_incompletePaths: "incompletePaths (countPacket now a v) = incompletePaths v"
  by (simp add: countPacket_def refreshPathVisualization_def split: option.splits)

lemma pathStartChunk_adjacentDistinct:
  "adjacentDistinct v \<Longrightarrow> adjacentDistinct (pathStartChunk node l ch v)"
  by (simp add: pathStartChunk_def Let_def addToIncompletePath_adjacentDistinct
        removeIncompletePath_adjacentDistinct)

lemma pathElementChunk_adjacentDistinct:
  "adjacentDistinct v \<Longrightarrow> adjacentDistinct (pathElementChunk node l ch v)"
  by (simp add: pathElementChunk_def addToIncompletePath_adjacentDistinct)

lemma pathEndChunk_adjacentDistinct:
  "adjacentDistinct (fst st) \<Longrightarrow> adjacentDistinct (fst (pathEndChunk now node l ch st))"
proof -
  assume inv: "adjacentDistinct (fst st)"
  let ?v1 = "addToIncompletePath l (chunkId ch) node (fst st)"
  have a: "adjacentDistinct ?v1" using inv by (rule addToIncompletePath_adjacentDistinct)
  have b: "adjacentDistinct (removeIncompletePath l (chunkId ch) w)"
    if "incompletePaths w = incompletePaths ?v1" for w
    using a that by (auto simp: adjacentDistinct_def removeIncompletePath_fields split: if_splits)
  show ?thesis
    using inv
    by (auto simp: pathEndChunk_def Let_def intro!: b
          simp: addLength_incompletePaths lookupOrCreate_incompletePaths)
qed

lemma fold_invariant:
  "P s \<Longrightarrow> (\<And>x s. P s \<Longrightarrow> P (f x s)) \<Longrightarrow> P (fold f xs s)"
  by (induction xs arbitrary: s) auto

lemma processPathStart_adjacentDistinct:
  "adjacentDistinct v \<Longrightarrow> adjacentDistinct (processPathStart node l pkt v)"
  unfolding processPathStart_def
  by (rule fold_invariant) (auto intro: pathStartChunk_adjacentDistinct)

lemma processPathElement_adjacentDistinct:
  "adjacentDistinct v \<Longrightarrow> adjacentDistinct (processPathElement node l pkt v)"
  unfolding processPathElement_def
  by (rule fold_invariant) (auto intro: pathElementChunk_adjacentDistinct)

lemma processPathEnd_adjacentDistinct:
  assumes "adjacentDistinct v"
  shows "adjacentDistinct (processPathEnd now node l pkt v)"
proof -
  have "adjacentDistinct (fst (fold (pathEndChunk now node l) pkt (v, [])))"
    by (rule fold_invariant[where P = "\<lambda>st. adjacentDistinct (fst st)"])
       (auto simp: assms intro: pathEndChunk_adjacentDistinct)
  moreover have "adjacentDistinct (fold (countPacket now) as w)" if "adjacentDistinct w" for as w
    using that
    by (rule fold_invariant) (simp add: adjacentDistinct_def countPacket_incompletePaths)
  ultimately show ?thesis
    by (simp add: processPathEnd_def Let_def)
qed

lemma processEvent_adjacentDistinct:
  "adjacentDistinct v \<Longrightarrow> adjacentDistinct (processEvent ev v)"
  by (cases ev)
     (simp_all add: processPathStart_adjacentDistinct processPathElement_adjacentDistinct
        processPathEnd_adjacentDistinct)

lemma processEvents_adjacentDistinct:
  "adjacentDistinct v \<Longrightarrow> adjacentDistinct (processEvents evs v)"
  unfolding processEvents_def
  by (rule fold_invariant) (auto intro: processEvent_adjacentDistinct)

text \<open>
  C9. Starting from the empty tracker, after any sequence of start, element and end events
  every stored incomplete path has no two equal consecutive entries; every single event
  keeps that property; and \<open>addToIncompletePath\<close> with a node equal to the last entry of
  the path leaves the path as it is.
\<close>

theorem incomplete_paths_have_no_consecutive_duplicates:
  "(\<forall>k path. incompletePaths (processEvents evs emptyVisualizer) k = Some path
       \<longrightarrow> distinct_adj path)
   \<and> ((\<forall>k path. incompletePaths v k = Some path \<longrightarrow> distinct_adj path) \<longrightarrow>
        (\<forall>k path. incompletePaths (processEvent ev v) k = Some path \<longrightarrow> distinct_adj path))
   \<and> (\<forall>path. incompletePaths v (l, c) = Some path \<and> path \<noteq> [] \<and> last path = node
        \<longrightarrow> incompletePaths (addToIncompletePath l c node v) = incompletePaths v)"
proof (intro conjI)
  have "adjacentDistinct emptyVisualizer"
    by (simp add: adjacentDistinct_def emptyVisualizer_def)
  then have "adjacentDistinct (processEvents evs emptyVisualizer)"
    by (rule processEvents_adjacentDistinct)
  then show "\<forall>k path. incompletePaths (processEvents evs emptyVisualizer) k = Some path
       \<longrightarrow> distinct_adj path"
    by (simp add: adjacentDistinct_def)
next
  show "(\<forall>k path. incompletePaths v k = Some path \<longrightarrow> distinct_adj path) \<longrightarrow>
        (\<forall>k path. incompletePaths (processEvent ev v) k = Some path \<longrightarrow> distinct_adj path)"
    using processEvent_adjacentDistinct[of v ev] by (simp add: adjacentDistinct_def)
next
  show "\<forall>path. incompletePaths v (l, c) = Some path \<and> path \<noteq> [] \<and> last path = node
        \<longrightarrow> incompletePaths (addToIncompletePath l c node v) = incompletePaths v"
    by (auto simp: addToIncompletePath_paths)
qed

theorem incomplete_paths_have_no_consecutive_duplicates_witness:
  "incompletePaths
      (processEvents [PathStart 1 ''L'' [exampleChunk], PathElement 1 ''L'' [exampleChunk],
                      PathElement 2 ''L'' [exampleChunk], PathElement 2 ''L'' [exampleChunk]]
         emptyVisualizer) (''L'', 0) = Some [1, 2]
   \<and> distinct_adj [1, 2 :: int]
   \<and> incompletePaths exampleOpenPath (''L'', 0) = Some [1, 2]
   \<and> incompletePaths (processEvent (PathElement 3 ''L'' [exampleChunk]) exampleOpenPath) (''L'', 0)
        = Some [1, 2, 3]
   \<and> distinct_adj [1, 2, 3 :: int]
   \<and> incompletePaths (addToIncompletePath ''L'' 0 2 exampleOpenPath)
        = incompletePaths exampleOpenPath"
proof -
  let ?evs = "[PathStart 1 ''L'' [exampleChunk], PathElement 1 ''L'' [exampleChunk],
               PathElement 2 ''L'' [exampleChunk], PathElement 2 ''L'' [exampleChunk]]"
  have a: "incompletePaths (processEvents ?evs emptyVisualizer) (''L'', 0) = Some [1, 2]"
    by (simp add: processEvents_def processPathStart_def processPathElement_def
          pathStartChunk_def pathElementChunk_def getIncompletePath_def
          addToIncompletePath_def removeIncompletePath_def emptyVisualizer_def exampleChunk_def
          Let_def)
  have b: "incompletePaths exampleOpenPath (''L'', 0) = Some [1, 2]"
    by (simp add: exampleOpenPath_def)
  have c: "incompletePaths (processEvent (PathElement 3 ''L'' [exampleChunk]) exampleOpenPath)
             (''L'', 0) = Some [1, 2, 3]"
    by (simp add: processPathElement_def pathElementChunk_def getIncompletePath_def
          addToIncompletePath_def exampleOpenPath_def exampleChunk_def Let_def)
  have d: "\<forall>k path. incompletePaths exampleOpenPath k = Some path \<longrightarrow> distinct_adj path"
    by (simp add: exampleOpenPath_def emptyVisualizer_def)
  note i1 = incomplete_paths_have_no_consecutive_duplicates
     [of ?evs exampleOpenPath "PathElement 3 ''L'' [exampleChunk]" "''L''" 0 2]
  from i1 a have "distinct_adj [1, 2 :: int]" by blast
  moreover from i1 d c have "distinct_adj [1, 2, 3 :: int]" by blast
  moreover from i1 b have "incompletePaths (addToIncompletePath ''L'' 0 2 exampleOpenPath)
        = incompletePaths exampleOpenPath" by simp
  ultimately show ?thesis using a b c by simp
qed

subsection \<open>The store of path visualizations\<close>

lemma set_multimap_insert: "set (multimap_insert k a xs) = insert (k, a) (set xs)"
  by (induction xs) auto

lemma distinct_multimap_insert:
  "distinct (map snd (multimap_insert k a xs)) \<longleftrightarrow> a \<notin> snd ` set xs \<and> distinct (map snd xs)"
  by (induction xs) (auto simp: set_multimap_insert)

lemma wellFormed_cong:
  "wellFormed w \<Longrightarrow> pathVisualizations w' = pathVisualizations w \<Longrightarrow> objects w' = objects w
     \<Longrightarrow> nextAddress w' = nextAddress w \<Longrightarrow> wellFormed w'"
  by (simp add: wellFormed_def)

lemma wellFormed_addToIncompletePath:
  "wellFormed v \<Longrightarrow> wellFormed (addToIncompletePath l c m v)"
  by (erule wellFormed_cong) (simp_all add: addToIncompletePath_others)

lemma wellFormed_removeIncompletePath:
  "wellFormed v \<Longrightarrow> wellFormed (removeIncompletePath l c v)"
  by (erule wellFormed_cong) (simp_all add: removeIncompletePath_fields)

lemma wellFormed_empty: "wellFormed emptyVisualizer"
  by (simp add: wellFormed_def emptyVisualizer_def)

lemma wellFormed_modify:
  assumes "wellFormed v" "objects v a = Some pv" "moduleIds pv' = moduleIds pv"
  shows "wellFormed (v\<lparr>objects := (objects v)(a \<mapsto> pv')\<rparr>)"
  using assms by (auto simp: wellFormed_def)

lemma wellFormed_addLength: "wellFormed v \<Longrightarrow> wellFormed (addLength a n v)"
  by (cases "objects v a") (simp_all add: addLength_def wellFormed_modify)

lemma wellFormed_countPacket: "wellFormed v \<Longrightarrow> wellFormed (countPacket now a v)"
proof (cases "objects v a")
  case None
  then show "wellFormed v \<Longrightarrow> ?thesis"
    by (simp add: countPacket_def refreshPathVisualization_def)
next
  case (Some pv)
  assume wf: "wellFormed v"
  have "countPacket now a v =
      v\<lparr>objects := (objects v)(a \<mapsto> pv\<lparr>numPackets := numPackets pv + 1,
                                        lastUsageAnimationPosition := now\<rparr>)\<rparr>"
    using Some by (simp add: countPacket_def refreshPathVisualization_def)
  with wellFormed_modify[OF wf Some] show ?thesis by simp
qed

lemma wellFormed_lookupOrCreate:
  assumes "wellFormed v"
  shows "wellFormed (fst (lookupOrCreate now l path v))"
proof (cases "getPathVisualization path v")
  case (Some a)
  with assms show ?thesis by (simp add: lookupOrCreate_def)
next
  case None
  have fresh: "nextAddress v \<notin> snd ` set (pathVisualizations v)"
  proof
    assume "nextAddress v \<in> snd ` set (pathVisualizations v)"
    then obtain e where "e \<in> set (pathVisualizations v)" "snd e = nextAddress v" by auto
    with assms have "objects v (nextAddress v) \<noteq> None" by (auto simp: wellFormed_def)
    with assms have "nextAddress v < nextAddress v" unfolding wellFormed_def by blast
    then show False by simp
  qed
  have free: "objects v (nextAddress v) = None"
    using assms unfolding wellFormed_def by (metis less_irrefl)
  show ?thesis
    using assms None fresh free
    by (auto simp: lookupOrCreate_def Let_def addPathVisualization_def wellFormed_def
          distinct_multimap_insert set_multimap_insert createPathVisualization_def less_Suc_eq)
qed

lemma wellFormed_pathEndChunk:
  assumes "wellFormed (fst st)"
  shows "wellFormed (fst (pathEndChunk now node l ch st))"
  using assms
  by (simp add: pathEndChunk_def Let_def wellFormed_addLength wellFormed_lookupOrCreate
        wellFormed_addToIncompletePath wellFormed_removeIncompletePath)

lemma wellFormed_processEvent:
  assumes "wellFormed v"
  shows "wellFormed (processEvent ev v)"
proof (cases ev)
  case (PathStart node l pkt)
  have "wellFormed (pathStartChunk node l ch x)" if "wellFormed x" for ch x
    using that
    by (simp add: pathStartChunk_def Let_def wellFormed_addToIncompletePath
          wellFormed_removeIncompletePath)
  with assms PathStart show ?thesis
    by (simp add: processPathStart_def fold_invariant)
next
  case (PathElement node l pkt)
  have "wellFormed (pathElementChunk node l ch x)" if "wellFormed x" for ch x
    using that by (simp add: pathElementChunk_def wellFormed_addToIncompletePath)
  with assms PathElement show ?thesis
    by (simp add: processPathElement_def fold_invariant)
next
  case (PathEnd now node l pkt)
  have "wellFormed (fst (fold (pathEndChunk now node l) pkt (v, [])))"
    by (rule fold_invariant[where P = "\<lambda>st. wellFormed (fst st)"])
       (simp_all add: assms wellFormed_pathEndChunk)
  then have "wellFormed (fold (countPacket now) as (fst (fold (pathEndChunk now node l) pkt (v, []))))" for as
    by (rule fold_invariant) (rule wellFormed_countPacket)
  with PathEnd show ?thesis by (simp add: processPathEnd_def Let_def)
qed

lemma wellFormed_processEvents: "wellFormed v \<Longrightarrow> wellFormed (processEvents evs v)"
  unfolding processEvents_def by (rule fold_invariant) (auto intro: wellFormed_processEvent)

lemma wellFormed_reachable: "wellFormed (processEvents evs emptyVisualizer)"
  by (rule wellFormed_processEvents) (rule wellFormed_empty)

subsection \<open>Completing a path\<close>

lemma first_cycle:
  assumes "A \<noteq> B" "B \<noteq> C"
  shows "processEvents (cycle A B C L len now) emptyVisualizer =
     \<lparr>incompletePaths = Map.empty, pathVisualizations = [((A, C), 0)],
      objects = [0 \<mapsto> \<lparr>moduleIds = [A, B, C], label = L, numPackets = 1, totalLength = len,
                        lastUsageAnimationPosition = now\<rparr>],
      opacity = Map.empty, nextAddress = Suc 0\<rparr>"
  using assms by (simp add: cycle_def tracker_defs)

lemma second_cycle:
  assumes "A \<noteq> B" "B \<noteq> C"
  shows "processEvents (cycle A B C L len2 now2) (processEvents (cycle A B C L len now) emptyVisualizer) =
     \<lparr>incompletePaths = Map.empty, pathVisualizations = [((A, C), 0)],
      objects = [0 \<mapsto> \<lparr>moduleIds = [A, B, C], label = L, numPackets = 2, totalLength = len + len2,
                        lastUsageAnimationPosition = now2\<rparr>],
      opacity = Map.empty, nextAddress = Suc 0\<rparr>"
  unfolding first_cycle[OF assms]
  using assms by (simp add: cycle_def tracker_defs)

lemma getPathVisualization_Some:
  "getPathVisualization path v = Some a \<Longrightarrow> \<exists>pv. objects v a = Some pv \<and> moduleIds pv = path"
proof -
  assume "getPathVisualization path v = Some a"
  then obtain entry where f: "find (matchesPath v path) (pathVisualizations v) = Some entry"
    and a: "a = snd entry"
    by (auto simp: getPathVisualization_def)
  from f have "matchesPath v path entry"
    by (auto simp: find_Some_iff)
  with a show ?thesis
    by (auto simp: matchesPath_def split: option.splits)
qed

lemma countPacket_objects:
  "objects (countPacket now a v) b =
     (if b = a then map_option (counted now) (objects v a) else objects v b)"
  by (auto simp: countPacket_def refreshPathVisualization_def counted_def split: option.splits)

lemma fold_countPacket_objects:
  "distinct as \<Longrightarrow>
   objects (fold (countPacket now) as v) b =
     (if b \<in> set as then map_option (counted now) (objects v b) else objects v b)"
  by (induction as arbitrary: v) (auto simp: countPacket_objects)

lemma endLoopInv_initial:
  "\<forall>a. objects v a \<noteq> None \<longrightarrow> a < nextAddress v \<Longrightarrow> endLoopInv v v []"
  by (simp add: endLoopInv_def)

lemma endLoopInv_paths:
  "endLoopInv v w upd \<Longrightarrow> objects w' = objects w \<Longrightarrow> nextAddress w' = nextAddress w
     \<Longrightarrow> endLoopInv v w' upd"
  by (simp add: endLoopInv_def)

lemma endLoopInv_update:
  assumes inv: "endLoopInv v w upd"
    and dom: "\<forall>b. b \<noteq> a \<longrightarrow> objects w' b = objects w b"
    and new: "objects w' a = Some pv'"
    and nxt: "a < nextAddress w'" "nextAddress w \<le> nextAddress w'"
    and old: "\<forall>pv. objects v a = Some pv \<longrightarrow>
                numPackets pv' = numPackets pv
                \<and> lastUsageAnimationPosition pv' = lastUsageAnimationPosition pv"
    and fresh: "objects v a = None \<longrightarrow> numPackets pv' = 0"
  shows "endLoopInv v w' (List.insert a upd)"
  unfolding endLoopInv_def
proof (intro conjI ballI allI impI)
  show "distinct (List.insert a upd)"
    using inv by (simp add: endLoopInv_def)
next
  fix b assume "b \<in> set (List.insert a upd)"
  then have "b = a \<or> (b \<noteq> a \<and> b \<in> set upd)" by auto
  then show "objects w' b \<noteq> None"
  proof
    assume "b = a" with new show ?thesis by simp
  next
    assume b: "b \<noteq> a \<and> b \<in> set upd"
    with inv have "objects w b \<noteq> None" by (simp add: endLoopInv_def)
    with b dom show ?thesis by simp
  qed
next
  fix b assume b: "objects w' b \<noteq> None"
  show "b < nextAddress w'"
  proof (cases "b = a")
    case True with nxt show ?thesis by simp
  next
    case False
    with b dom have "objects w b \<noteq> None" by simp
    with inv have "b < nextAddress w" by (simp add: endLoopInv_def)
    with nxt show ?thesis by simp
  qed
next
  fix b pv assume b: "objects v b = Some pv"
  show "\<exists>pv'. objects w' b = Some pv' \<and> numPackets pv' = numPackets pv
          \<and> lastUsageAnimationPosition pv' = lastUsageAnimationPosition pv"
  proof (cases "b = a")
    case True with b new old show ?thesis by simp
  next
    case False
    from inv b have "\<exists>pv'. objects w b = Some pv' \<and> numPackets pv' = numPackets pv
          \<and> lastUsageAnimationPosition pv' = lastUsageAnimationPosition pv"
      unfolding endLoopInv_def by blast
    with False dom show ?thesis by simp
  qed
next
  fix b pv'' assume b: "objects v b = None" "objects w' b = Some pv''"
  show "numPackets pv'' = 0"
  proof (cases "b = a")
    case True with b new fresh show ?thesis by simp
  next
    case False
    with b dom have "objects w b = Some pv''" by simp
    with inv b(1) show ?thesis unfolding endLoopInv_def by blast
  qed
next
  fix b pv'' assume b: "objects v b = None" "objects w' b = Some pv''"
  show "b \<in> set (List.insert a upd)"
  proof (cases "b = a")
    case True then show ?thesis by simp
  next
    case False
    with b dom have "objects w b = Some pv''" by simp
    with inv b(1) have "b \<in> set upd" unfolding endLoopInv_def by blast
    then show ?thesis by simp
  qed
qed

lemma endLoopInv_found:
  assumes "endLoopInv v w upd" "objects w a = Some pv"
  shows "endLoopInv v (addLength a n w) (List.insert a upd)"
proof (rule endLoopInv_update[OF assms(1)])
  show "\<forall>b. b \<noteq> a \<longrightarrow> objects (addLength a n w) b = objects w b"
    using assms(2) by (simp add: addLength_def)
  show "objects (addLength a n w) a = Some (pv\<lparr>totalLength := totalLength pv + n\<rparr>)"
    using assms(2) by (simp add: addLength_def)
  show "nextAddress w \<le> nextAddress (addLength a n w)"
    by (simp add: addLength_def split: option.splits)
  show "a < nextAddress (addLength a n w)"
    using assms by (simp add: addLength_def endLoopInv_def)
  show "\<forall>pv0. objects v a = Some pv0 \<longrightarrow>
          numPackets (pv\<lparr>totalLength := totalLength pv + n\<rparr>) = numPackets pv0
          \<and> lastUsageAnimationPosition (pv\<lparr>totalLength := totalLength pv + n\<rparr>)
              = lastUsageAnimationPosition pv0"
  proof (intro allI impI)
    fix pv0 assume "objects v a = Some pv0"
    with assms(1) have "\<exists>pv'. objects w a = Some pv' \<and> numPackets pv' = numPackets pv0
          \<and> lastUsageAnimationPosition pv' = lastUsageAnimationPosition pv0"
      unfolding endLoopInv_def by blast
    with assms(2) show "numPackets (pv\<lparr>totalLength := totalLength pv + n\<rparr>) = numPackets pv0
          \<and> lastUsageAnimationPosition (pv\<lparr>totalLength := totalLength pv + n\<rparr>)
              = lastUsageAnimationPosition pv0"
      by simp
  qed
  show "objects v a = None \<longrightarrow> numPackets (pv\<lparr>totalLength := totalLength pv + n\<rparr>) = 0"
  proof
    assume "objects v a = None"
    with assms have "numPackets pv = 0" unfolding endLoopInv_def by blast
    then show "numPackets (pv\<lparr>totalLength := totalLength pv + n\<rparr>) = 0" by simp
  qed
qed

lemma endLoopInv_created:
  assumes "endLoopInv v w upd"
  shows "endLoopInv v
           (addLength (nextAddress w) n
              (addPathVisualization (nextAddress w) (createPathVisualization l path now)
                 (w\<lparr>objects := (objects w)(nextAddress w \<mapsto> createPathVisualization l path now),
                    nextAddress := Suc (nextAddress w)\<rparr>)))
           (List.insert (nextAddress w) upd)"
proof -
  let ?a = "nextAddress w"
  let ?pv = "createPathVisualization l path now"
  let ?w1 = "addPathVisualization ?a ?pv (w\<lparr>objects := (objects w)(?a \<mapsto> ?pv), nextAddress := Suc ?a\<rparr>)"
  have free: "objects w ?a = None"
    using assms by (auto simp: endLoopInv_def)
  have obj: "objects (addLength ?a n ?w1) = (objects w)(?a \<mapsto> ?pv\<lparr>totalLength := totalLength ?pv + n\<rparr>)"
    and nxt: "nextAddress (addLength ?a n ?w1) = Suc ?a"
    by (simp_all add: addLength_def addPathVisualization_def)
  have np: "numPackets ?pv = 0" by (simp add: createPathVisualization_def)
  have old: "objects v ?a = None"
  proof (cases "objects v ?a")
    case (Some pv)
    with assms have "objects w ?a \<noteq> None" unfolding endLoopInv_def by blast
    with free show ?thesis by simp
  qed simp
  show ?thesis
  proof (rule endLoopInv_update[OF assms])
    show "\<forall>b. b \<noteq> ?a \<longrightarrow> objects (addLength ?a n ?w1) b = objects w b"
      by (simp add: obj)
    show "objects (addLength ?a n ?w1) ?a = Some (?pv\<lparr>totalLength := totalLength ?pv + n\<rparr>)"
      by (simp add: obj)
    show "?a < nextAddress (addLength ?a n ?w1)" "?a \<le> nextAddress (addLength ?a n ?w1)"
      by (simp_all add: nxt)
    show "\<forall>pv. objects v ?a = Some pv \<longrightarrow>
         numPackets (?pv\<lparr>totalLength := totalLength ?pv + n\<rparr>) = numPackets pv \<and>
         lastUsageAnimationPosition (?pv\<lparr>totalLength := totalLength ?pv + n\<rparr>) =
         lastUsageAnimationPosition pv"
      by (simp add: old)
    show "objects v ?a = None \<longrightarrow> numPackets (?pv\<lparr>totalLength := totalLength ?pv + n\<rparr>) = 0"
      by (simp add: np)
  qed
qed

lemma pathEndChunk_endLoopInv:
  assumes "endLoopInv v (fst st) (snd st)"
  shows "endLoopInv v (fst (pathEndChunk now node l ch st)) (snd (pathEndChunk now node l ch st))"
proof -
  obtain w upd where st: "st = (w, upd)" by (cases st)
  let ?v1 = "addToIncompletePath l (chunkId ch) node w"
  have inv0: "endLoopInv v w upd" using assms st by simp
  have inv1: "endLoopInv v ?v1 upd"
    using inv0 by (auto intro: endLoopInv_paths simp: addToIncompletePath_others)
  have rm: "endLoopInv v (removeIncompletePath l (chunkId ch) x) u" if "endLoopInv v x u" for x u
    using that by (auto intro: endLoopInv_paths simp: removeIncompletePath_fields)
  have step: "endLoopInv v (addLength (snd (lookupOrCreate now l path ?v1)) n
                 (fst (lookupOrCreate now l path ?v1)))
               (List.insert (snd (lookupOrCreate now l path ?v1)) upd)" for path n
  proof (cases "getPathVisualization path ?v1")
    case None
    then show ?thesis
      using endLoopInv_created[OF inv1, of n l path now]
      by (simp add: lookupOrCreate_def Let_def)
  next
    case (Some a)
    then obtain pv where "objects ?v1 a = Some pv"
      by (auto dest: getPathVisualization_Some)
    from endLoopInv_found[OF inv1 this] Some show ?thesis
      by (simp add: lookupOrCreate_def)
  qed
  show ?thesis
    using inv0 inv1 step rm
    by (simp add: st pathEndChunk_def Let_def)
qed

lemma fold_pathEndChunk_endLoopInv:
  "endLoopInv v (fst st) (snd st) \<Longrightarrow>
   endLoopInv v (fst (fold (pathEndChunk now node l) pkt st))
                (snd (fold (pathEndChunk now node l) pkt st))"
  by (rule fold_invariant[where P = "\<lambda>st. endLoopInv v (fst st) (snd st)"])
     (auto intro: pathEndChunk_endLoopInv)

lemma processPathEnd_counts_once:
  assumes "\<forall>a. objects v a \<noteq> None \<longrightarrow> a < nextAddress v"
  shows "(\<forall>a pv. objects v a = Some pv \<longrightarrow>
             (\<exists>pv'. objects (processPathEnd now node l pkt v) a = Some pv'
                \<and> numPackets pv' =
                    numPackets pv + (if a \<in> set (updatedVisualizations now node l pkt v) then 1 else 0)
                \<and> lastUsageAnimationPosition pv' =
                    (if a \<in> set (updatedVisualizations now node l pkt v) then now
                     else lastUsageAnimationPosition pv)))
       \<and> (\<forall>a pv'. objects v a = None \<longrightarrow> objects (processPathEnd now node l pkt v) a = Some pv' \<longrightarrow>
             numPackets pv' = 1 \<and> lastUsageAnimationPosition pv' = now
             \<and> a \<in> set (updatedVisualizations now node l pkt v))"
proof -
  let ?st = "fold (pathEndChunk now node l) pkt (v, [])"
  have inv: "endLoopInv v (fst ?st) (snd ?st)"
    by (rule fold_pathEndChunk_endLoopInv) (simp add: endLoopInv_initial[OF assms])
  then have d: "distinct (snd ?st)" by (simp add: endLoopInv_def)
  have obj: "objects (processPathEnd now node l pkt v) a =
      (if a \<in> set (snd ?st) then map_option (counted now) (objects (fst ?st) a)
       else objects (fst ?st) a)" for a
    by (simp add: processPathEnd_def Let_def fold_countPacket_objects[OF d])
  have up: "updatedVisualizations now node l pkt v = snd ?st"
    by (simp add: updatedVisualizations_def)
  show ?thesis
  proof (rule conjI; intro allI impI)
    fix a pv assume a: "objects v a = Some pv"
    with inv obtain pv' where pv': "objects (fst ?st) a = Some pv'"
        "numPackets pv' = numPackets pv"
        "lastUsageAnimationPosition pv' = lastUsageAnimationPosition pv"
      unfolding endLoopInv_def by blast
    then show "\<exists>pv'. objects (processPathEnd now node l pkt v) a = Some pv'
                \<and> numPackets pv' =
                    numPackets pv + (if a \<in> set (updatedVisualizations now node l pkt v) then 1 else 0)
                \<and> lastUsageAnimationPosition pv' =
                    (if a \<in> set (updatedVisualizations now node l pkt v) then now
                     else lastUsageAnimationPosition pv)"
      by (simp add: obj up counted_def)
  next
    fix a pv' assume a: "objects v a = None"
      "objects (processPathEnd now node l pkt v) a = Some pv'"
    from a(2) obtain pv0 where pv0: "objects (fst ?st) a = Some pv0"
      by (auto simp: obj split: if_splits)
    with inv a(1) have z: "numPackets pv0 = 0" "a \<in> set (snd ?st)"
      unfolding endLoopInv_def by blast+
    with a(2) pv0 have "pv' = counted now pv0" by (simp add: obj)
    with z show "numPackets pv' = 1 \<and> lastUsageAnimationPosition pv' = now
             \<and> a \<in> set (updatedVisualizations now node l pkt v)"
      by (simp add: counted_def up)
  qed
qed

text \<open>
  C5. For nodes \<open>A \<noteq> B\<close> and \<open>B \<noteq> C\<close>, the events start(A, L, chunk 0), element(B, L, 0),
  end(C, L, 0) on the empty tracker leave exactly one PathVisualization: its node sequence
  is \<open>[A, B, C]\<close>, it has counted one packet and the length of the chunk, and no incomplete
  path remains. A second such cycle leaves that one visualization with two packets and
  the sum of the two lengths. In general, in a well-formed state, \<open>processPathEnd\<close> raises
  the packet counter of a visualization by one exactly when the visualization is in
  \<open>updatedVisualizations\<close>, whatever the number of chunks that reached it, and sets its
  time of last use then; a visualization created by the call has counted one packet.
\<close>

theorem path_reconstruction_counts_packets:
  "(A \<noteq> B \<and> B \<noteq> C \<longrightarrow>
      processEvents (cycle A B C L len now) emptyVisualizer =
        \<lparr>incompletePaths = Map.empty, pathVisualizations = [((A, C), 0)],
         objects = [0 \<mapsto> \<lparr>moduleIds = [A, B, C], label = L, numPackets = 1, totalLength = len,
                           lastUsageAnimationPosition = now\<rparr>],
         opacity = Map.empty, nextAddress = Suc 0\<rparr>
      \<and> processEvents (cycle A B C L len2 now2)
            (processEvents (cycle A B C L len now) emptyVisualizer) =
        \<lparr>incompletePaths = Map.empty, pathVisualizations = [((A, C), 0)],
         objects = [0 \<mapsto> \<lparr>moduleIds = [A, B, C], label = L, numPackets = 2,
                           totalLength = len + len2, lastUsageAnimationPosition = now2\<rparr>],
         opacity = Map.empty, nextAddress = Suc 0\<rparr>)
   \<and> (wellFormed v \<longrightarrow>
        (\<forall>a pv. objects v a = Some pv \<longrightarrow>
           (\<exists>pv'. objects (processPathEnd now node l pkt v) a = Some pv'
              \<and> numPackets pv' =
                  numPackets pv + (if a \<in> set (updatedVisualizations now node l pkt v) then 1 else 0)
              \<and> lastUsageAnimationPosition pv' =
                  (if a \<in> set (updatedVisualizations now node l pkt v) then now
                   else lastUsageAnimationPosition pv)))
        \<and> (\<forall>a pv'. objects v a = None \<longrightarrow>
              objects (processPathEnd now node l pkt v) a = Some pv' \<longrightarrow>
              numPackets pv' = 1 \<and> lastUsageAnimationPosition pv' = now
              \<and> a \<in> set (updatedVisualizations now node l pkt v)))"
proof (rule conjI; rule impI)
  assume d: "A \<noteq> B \<and> B \<noteq> C"
  then have ab: "A \<noteq> B" and bc: "B \<noteq> C" by simp_all
  show "processEvents (cycle A B C L len now) emptyVisualizer =
        \<lparr>incompletePaths = Map.empty, pathVisualizations = [((A, C), 0)],
         objects = [0 \<mapsto> \<lparr>moduleIds = [A, B, C], label = L, numPackets = 1, totalLength = len,
                           lastUsageAnimationPosition = now\<rparr>],
         opacity = Map.empty, nextAddress = Suc 0\<rparr>
      \<and> processEvents (cycle A B C L len2 now2)
            (processEvents (cycle A B C L len now) emptyVisualizer) =
        \<lparr>incompletePaths = Map.empty, pathVisualizations = [((A, C), 0)],
         objects = [0 \<mapsto> \<lparr>moduleIds = [A, B, C], label = L, numPackets = 2,
                           totalLength = len + len2, lastUsageAnimationPosition = now2\<rparr>],
         opacity = Map.empty, nextAddress = Suc 0\<rparr>"
    using first_cycle[OF ab bc] second_cycle[OF ab bc] by simp
next
  assume "wellFormed v"
  then have "\<forall>a. objects v a \<noteq> None \<longrightarrow> a < nextAddress v"
    by (simp add: wellFormed_def)
  then show "(\<forall>a pv. objects v a = Some pv \<longrightarrow>
           (\<exists>pv'. objects (processPathEnd now node l pkt v) a = Some pv'
              \<and> numPackets pv' =
                  numPackets pv + (if a \<in> set (updatedVisualizations now node l pkt v) then 1 else 0)
              \<and> lastUsageAnimationPosition pv' =
                  (if a \<in> set (updatedVisualizations now node l pkt v) then now
                   else lastUsageAnimationPosition pv)))
        \<and> (\<forall>a pv'. objects v a = None \<longrightarrow>
              objects (processPathEnd now node l pkt v) a = Some pv' \<longrightarrow>
              numPackets pv' = 1 \<and> lastUsageAnimationPosition pv' = now
              \<and> a \<in> set (updatedVisualizations now node l pkt v))"
    by (rule processPathEnd_counts_once)
qed

theorem path_reconstruction_counts_packets_witness:
  "(1::int) \<noteq> 2 \<and> (2::int) \<noteq> 3
   \<and> pathVisualizations
        (processEvents (cycle 1 2 3 ''L'' 50 \<lparr>simulationTime = 9, animationTime = 9, realTime = 9\<rparr>)
           (processEvents (cycle 1 2 3 ''L'' 100 \<lparr>simulationTime = 4, animationTime = 4, realTime = 4\<rparr>)
              emptyVisualizer)) = [((1, 3), 0)]
   \<and> objects
        (processEvents (cycle 1 2 3 ''L'' 50 \<lparr>simulationTime = 9, animationTime = 9, realTime = 9\<rparr>)
           (processEvents (cycle 1 2 3 ''L'' 100 \<lparr>simulationTime = 4, animationTime = 4, realTime = 4\<rparr>)
              emptyVisualizer)) 0
       = Some \<lparr>moduleIds = [1, 2, 3], label = ''L'', numPackets = 2, totalLength = 150,
               lastUsageAnimationPosition = \<lparr>simulationTime = 9, animationTime = 9, realTime = 9\<rparr>\<rparr>
   \<and> wellFormed exampleOpenChunks
   \<and> updatedVisualizations \<lparr>simulationTime = 4, animationTime = 4, realTime = 4\<rparr> 3 ''L''
        [\<lparr>chunkId = 0, chunkLength = 30\<rparr>, \<lparr>chunkId = 1, chunkLength = 20\<rparr>] exampleOpenChunks = [0]
   \<and> (\<exists>pv'. objects
          (processPathEnd \<lparr>simulationTime = 4, animationTime = 4, realTime = 4\<rparr> 3 ''L''
             [\<lparr>chunkId = 0, chunkLength = 30\<rparr>, \<lparr>chunkId = 1, chunkLength = 20\<rparr>] exampleOpenChunks) 0
          = Some pv'
        \<and> numPackets pv' = 2 \<and> totalLength pv' = 150
        \<and> lastUsageAnimationPosition pv' = \<lparr>simulationTime = 4, animationTime = 4, realTime = 4\<rparr>)"
proof -
  let ?n4 = "\<lparr>simulationTime = 4, animationTime = 4, realTime = 4\<rparr>"
  let ?n9 = "\<lparr>simulationTime = 9, animationTime = 9, realTime = 9\<rparr>"
  let ?pkt = "[\<lparr>chunkId = 0, chunkLength = 30\<rparr>, \<lparr>chunkId = 1, chunkLength = 20\<rparr>]"
  note inst = path_reconstruction_counts_packets
      [of 1 2 3 "''L''" 100 ?n4 50 ?n9 exampleOpenChunks 3 "''L''" ?pkt]
  have ne: "(1::int) \<noteq> 2 \<and> (2::int) \<noteq> 3" by simp
  have wf: "wellFormed exampleOpenChunks"
    by (simp add: wellFormed_def exampleOpenChunks_def sourceAndDestination_def)
  have upd: "updatedVisualizations ?n4 3 ''L'' ?pkt exampleOpenChunks = [0]"
    by (simp add: updatedVisualizations_def exampleOpenChunks_def tracker_defs)
  have obj: "objects exampleOpenChunks 0 =
      Some \<lparr>moduleIds = [1, 2, 3], label = ''L'', numPackets = 1, totalLength = 100,
                        lastUsageAnimationPosition =
                          \<lparr>simulationTime = 0, animationTime = 0, realTime = 0\<rparr>\<rparr>"
    by (simp add: exampleOpenChunks_def)
  have len: "\<exists>pv'. objects (processPathEnd ?n4 3 ''L'' ?pkt exampleOpenChunks) 0 = Some pv'
       \<and> totalLength pv' = 150"
    by (simp add: exampleOpenChunks_def tracker_defs)
  note first = inst[THEN conjunct1, rule_format, OF ne]
  note general = inst[THEN conjunct2, rule_format, OF wf]
  have two:
    "processEvents (cycle 1 2 3 ''L'' 50 ?n9) (processEvents (cycle 1 2 3 ''L'' 100 ?n4) emptyVisualizer) =
        \<lparr>incompletePaths = Map.empty, pathVisualizations = [((1, 3), 0)],
         objects = [0 \<mapsto> \<lparr>moduleIds = [1, 2, 3], label = ''L'', numPackets = 2,
                           totalLength = 100 + 50, lastUsageAnimationPosition = ?n9\<rparr>],
         opacity = Map.empty, nextAddress = Suc 0\<rparr>"
    by (rule first[THEN conjunct2])
  note counted = general[THEN conjunct1, rule_format, OF obj, unfolded upd]
  from counted len
  have ex: "\<exists>pv'. objects (processPathEnd ?n4 3 ''L'' ?pkt exampleOpenChunks) 0 = Some pv'
        \<and> numPackets pv' = 2 \<and> totalLength pv' = 150
        \<and> lastUsageAnimationPosition pv' = ?n4"
    by auto
  have pvs: "pathVisualizations
        (processEvents (cycle 1 2 3 ''L'' 50 ?n9) (processEvents (cycle 1 2 3 ''L'' 100 ?n4) emptyVisualizer))
        = [((1, 3), 0)]"
    by (simp add: two)
  have objs: "objects
        (processEvents (cycle 1 2 3 ''L'' 50 ?n9) (processEvents (cycle 1 2 3 ''L'' 100 ?n4) emptyVisualizer)) 0
       = Some \<lparr>moduleIds = [1, 2, 3], label = ''L'', numPackets = 2, totalLength = 150,
               lastUsageAnimationPosition = ?n9\<rparr>"
    by (simp add: two)
  from ne pvs objs wf upd ex show ?thesis by (intro conjI) simp_all
qed

subsection \<open>Fade-out\<close>

lemma idleOf_opacity [simp]: "idleOf cfg current (v\<lparr>opacity := f\<rparr>) = idleOf cfg current v"
  by (simp add: idleOf_def fun_eq_iff)

lemma fadeOutLoop_result:
  assumes "\<forall>e \<in> set es. idleOf cfg current w (snd e) \<noteq> None"
  shows "\<exists>w'. fadeOutLoop cfg current es (w, rem) =
            Inr (w', rem @ map snd (filter (\<lambda>e. \<exists>d. idleOf cfg current w (snd e) = Some d
                                          \<and> d > fadeOutTime cfg) es))
          \<and> objects w' = objects w
          \<and> pathVisualizations w' = pathVisualizations w
          \<and> nextAddress w' = nextAddress w
          \<and> incompletePaths w' = incompletePaths w
          \<and> (\<forall>a. opacity w' a =
                (if a \<in> snd ` set es
                    \<and> (\<exists>d. idleOf cfg current w a = Some d \<and> d \<le> fadeOutTime cfg)
                 then map_option (\<lambda>d. 1 - d / fadeOutTime cfg) (idleOf cfg current w a)
                 else opacity w a))"
  using assms
proof (induction es arbitrary: w rem)
  case Nil
  then show ?case by simp
next
  case (Cons e es)
  from Cons.prems obtain d where d: "idleOf cfg current w (snd e) = Some d" by auto
  then obtain pv where pv: "objects w (snd e) = Some pv"
    and it: "idleTime (fadeOutMode cfg) current (lastUsageAnimationPosition pv) = Inr d"
    by (auto simp: idleOf_def split: option.splits sum.splits)
  show ?case
  proof (cases "d > fadeOutTime cfg")
    case True
    have rest: "\<forall>e \<in> set es. idleOf cfg current w (snd e) \<noteq> None"
      using Cons.prems by simp
    from Cons.IH[OF rest, of "rem @ [snd e]"] obtain w' where
      w': "fadeOutLoop cfg current es (w, rem @ [snd e]) =
            Inr (w', (rem @ [snd e]) @ map snd (filter (\<lambda>e. \<exists>d. idleOf cfg current w (snd e) = Some d
                                          \<and> d > fadeOutTime cfg) es))"
        "objects w' = objects w" "pathVisualizations w' = pathVisualizations w"
        "nextAddress w' = nextAddress w" "incompletePaths w' = incompletePaths w"
        "\<forall>a. opacity w' a =
                (if a \<in> snd ` set es
                    \<and> (\<exists>d. idleOf cfg current w a = Some d \<and> d \<le> fadeOutTime cfg)
                 then map_option (\<lambda>d. 1 - d / fadeOutTime cfg) (idleOf cfg current w a)
                 else opacity w a)"
      by blast
    have "fadeOutLoop cfg current (e # es) (w, rem) =
            Inr (w', rem @ map snd (filter (\<lambda>e. \<exists>d. idleOf cfg current w (snd e) = Some d
                                          \<and> d > fadeOutTime cfg) (e # es)))"
      using True d pv it w'(1) by simp
    moreover have "\<forall>a. opacity w' a =
                (if a \<in> snd ` set (e # es)
                    \<and> (\<exists>d. idleOf cfg current w a = Some d \<and> d \<le> fadeOutTime cfg)
                 then map_option (\<lambda>d. 1 - d / fadeOutTime cfg) (idleOf cfg current w a)
                 else opacity w a)"
      using True d w'(6) by auto
    ultimately show ?thesis using w'(2-5) by blast
  next
    case False
    let ?w1 = "w\<lparr>opacity := (opacity w)(snd e \<mapsto> 1 - d / fadeOutTime cfg)\<rparr>"
    have rest: "\<forall>e \<in> set es. idleOf cfg current ?w1 (snd e) \<noteq> None"
      using Cons.prems by simp
    from Cons.IH[OF rest, of rem, unfolded idleOf_opacity] obtain w' where
      w': "fadeOutLoop cfg current es (?w1, rem) =
            Inr (w', rem @ map snd (filter (\<lambda>e. \<exists>d. idleOf cfg current w (snd e) = Some d
                                          \<and> d > fadeOutTime cfg) es))"
        "objects w' = objects ?w1" "pathVisualizations w' = pathVisualizations ?w1"
        "nextAddress w' = nextAddress ?w1" "incompletePaths w' = incompletePaths ?w1"
        "\<forall>a. opacity w' a =
                (if a \<in> snd ` set es
                    \<and> (\<exists>d. idleOf cfg current w a = Some d \<and> d \<le> fadeOutTime cfg)
                 then map_option (\<lambda>d. 1 - d / fadeOutTime cfg) (idleOf cfg current w a)
                 else opacity ?w1 a)"
      by blast
    have "fadeOutLoop cfg current (e # es) (w, rem) =
            Inr (w', rem @ map snd (filter (\<lambda>e. \<exists>d. idleOf cfg current w (snd e) = Some d
                                          \<and> d > fadeOutTime cfg) (e # es)))"
      using False d pv it w'(1) by simp
    moreover have "\<forall>a. opacity w' a =
                (if a \<in> snd ` set (e # es)
                    \<and> (\<exists>d. idleOf cfg current w a = Some d \<and> d \<le> fadeOutTime cfg)
                 then map_option (\<lambda>d. 1 - d / fadeOutTime cfg) (idleOf cfg current w a)
                 else opacity w a)"
      using False d w'(6) by auto
    ultimately show ?thesis using w'(2-5) by simp
  qed
qed

lemma remove1_unique_address:
  "distinct (map snd xs) \<Longrightarrow> (k, a) \<in> set xs \<Longrightarrow>
   remove1 (k, a) xs = filter (\<lambda>e. snd e \<noteq> a) xs"
proof (induction xs)
  case Nil
  then show ?case by simp
next
  case (Cons x xs)
  show ?case
  proof (cases "x = (k, a)")
    case True
    with Cons.prems have "\<forall>e \<in> set xs. snd e \<noteq> a" by (auto simp: image_iff)
    then have "filter (\<lambda>e. snd e \<noteq> a) xs = xs" by (simp add: filter_id_conv)
    with True show ?thesis by simp
  next
    case False
    with Cons.prems have in_xs: "(k, a) \<in> set xs" by simp
    with Cons.prems have "snd x \<noteq> a" by (auto simp: image_iff)
    with False Cons.IH in_xs Cons.prems show ?thesis by simp
  qed
qed

lemma removeLoop_result:
  assumes "wellFormed w" "set as \<subseteq> snd ` set (pathVisualizations w)" "distinct as"
  shows "\<exists>w'. removeLoop as w = Inr w'
          \<and> pathVisualizations w' = filter (\<lambda>e. snd e \<notin> set as) (pathVisualizations w)
          \<and> (\<forall>a. objects w' a = (if a \<in> set as then None else objects w a))
          \<and> (\<forall>a. opacity w' a = (if a \<in> set as then None else opacity w a))
          \<and> nextAddress w' = nextAddress w
          \<and> incompletePaths w' = incompletePaths w"
  using assms
proof (induction as arbitrary: w)
  case Nil
  then show ?case by simp
next
  case (Cons a as)
  from Cons.prems(2) obtain k where ka: "(k, a) \<in> set (pathVisualizations w)" by auto
  with Cons.prems(1) obtain pv where pv: "objects w a = Some pv"
      and k: "k = sourceAndDestination (moduleIds pv)"
    by (fastforce simp: wellFormed_def)
  have dist: "distinct (map snd (pathVisualizations w))"
    using Cons.prems(1) by (simp add: wellFormed_def)
  let ?w1 = "deleteObject a (w\<lparr>pathVisualizations :=
                 filter (\<lambda>e. snd e \<noteq> a) (pathVisualizations w)\<rparr>)"
  have rp: "removePathVisualization a w =
      Inr (w\<lparr>pathVisualizations := filter (\<lambda>e. snd e \<noteq> a) (pathVisualizations w)\<rparr>)"
    using pv k ka remove1_unique_address[OF dist ka]
    by (simp add: removePathVisualization_def)
  have wf1: "wellFormed ?w1"
    using Cons.prems(1)
    by (auto simp: wellFormed_def deleteObject_def distinct_map_filter)
  have sub: "set as \<subseteq> snd ` set (pathVisualizations ?w1)"
  proof
    fix x assume x: "x \<in> set as"
    with Cons.prems(2) obtain e where "e \<in> set (pathVisualizations w)" "snd e = x" by auto
    moreover from x Cons.prems(3) have "x \<noteq> a" by auto
    ultimately show "x \<in> snd ` set (pathVisualizations ?w1)"
      by (force simp: deleteObject_def)
  qed
  have das: "distinct as" using Cons.prems(3) by simp
  from Cons.IH[OF wf1 sub das] obtain w' where
    w': "removeLoop as ?w1 = Inr w'"
      "pathVisualizations w' = filter (\<lambda>e. snd e \<notin> set as) (pathVisualizations ?w1)"
      "\<forall>b. objects w' b = (if b \<in> set as then None else objects ?w1 b)"
      "\<forall>b. opacity w' b = (if b \<in> set as then None else opacity ?w1 b)"
      "nextAddress w' = nextAddress ?w1" "incompletePaths w' = incompletePaths ?w1"
    by blast
  have "removeLoop (a # as) w = Inr w'"
    using rp w'(1) by simp
  moreover have "pathVisualizations w' = filter (\<lambda>e. snd e \<notin> set (a # as)) (pathVisualizations w)"
    using w'(2) by (simp add: deleteObject_def conj_commute)
  moreover have "\<forall>b. objects w' b = (if b \<in> set (a # as) then None else objects w b)"
    using w'(3) by (simp add: deleteObject_def)
  moreover have "\<forall>b. opacity w' b = (if b \<in> set (a # as) then None else opacity w b)"
    using w'(4) by (simp add: deleteObject_def)
  moreover have "nextAddress w' = nextAddress w" "incompletePaths w' = incompletePaths w"
    using w'(5,6) by (simp_all add: deleteObject_def)
  ultimately show ?case by blast
qed

lemma idleTime_valid:
  "validFadeOutMode mode \<Longrightarrow> \<exists>d. idleTime mode current lastUsage = Inr d"
  by (auto simp: validFadeOutMode_def idleTime_def)

lemma refreshDisplay_result:
  assumes wf: "wellFormed v" and mode: "validFadeOutMode (fadeOutMode cfg)"
    and pos: "fadeOutTime cfg > 0"
  shows "\<exists>v'. refreshDisplay cfg current v = Inr v'
          \<and> pathVisualizations v' =
              filter (\<lambda>e. \<not> (\<exists>d. idleOf cfg current v (snd e) = Some d \<and> d > fadeOutTime cfg))
                (pathVisualizations v)
          \<and> (\<forall>a. objects v' a =
                (if a \<in> snd ` set (pathVisualizations v)
                      \<and> (\<exists>d. idleOf cfg current v a = Some d \<and> d > fadeOutTime cfg)
                 then None else objects v a))
          \<and> (\<forall>a. a \<in> snd ` set (pathVisualizations v) \<longrightarrow>
                (\<forall>d. idleOf cfg current v a = Some d \<longrightarrow> d \<le> fadeOutTime cfg \<longrightarrow>
                   opacity v' a = Some (1 - d / fadeOutTime cfg)))
          \<and> nextAddress v' = nextAddress v
          \<and> incompletePaths v' = incompletePaths v"
proof -
  let ?expired = "\<lambda>e. \<exists>d. idleOf cfg current v (snd e) = Some d \<and> d > fadeOutTime cfg"
  let ?rem = "map snd (filter ?expired (pathVisualizations v))"
  have all: "\<forall>e \<in> set (pathVisualizations v). idleOf cfg current v (snd e) \<noteq> None"
  proof
    fix e assume "e \<in> set (pathVisualizations v)"
    with wf obtain pv where "objects v (snd e) = Some pv" by (auto simp: wellFormed_def)
    moreover from idleTime_valid[OF mode] obtain d where
      "idleTime (fadeOutMode cfg) current (lastUsageAnimationPosition pv) = Inr d" by blast
    ultimately show "idleOf cfg current v (snd e) \<noteq> None" by (simp add: idleOf_def)
  qed
  from fadeOutLoop_result[OF all, of "[]"] obtain w where
    w: "fadeOutLoop cfg current (pathVisualizations v) (v, []) = Inr (w, ?rem)"
      "objects w = objects v" "pathVisualizations w = pathVisualizations v"
      "nextAddress w = nextAddress v" "incompletePaths w = incompletePaths v"
      "\<forall>a. opacity w a =
                (if a \<in> snd ` set (pathVisualizations v)
                    \<and> (\<exists>d. idleOf cfg current v a = Some d \<and> d \<le> fadeOutTime cfg)
                 then map_option (\<lambda>d. 1 - d / fadeOutTime cfg) (idleOf cfg current v a)
                 else opacity v a)"
    by auto
  have wfw: "wellFormed w" using wf w(2-4) by (simp add: wellFormed_def)
  have sub: "set ?rem \<subseteq> snd ` set (pathVisualizations w)" by (auto simp: w(3))
  have dist: "distinct ?rem"
    using wf by (simp add: wellFormed_def distinct_map_filter)
  from removeLoop_result[OF wfw sub dist] obtain v' where
    v': "removeLoop ?rem w = Inr v'"
      "pathVisualizations v' = filter (\<lambda>e. snd e \<notin> set ?rem) (pathVisualizations w)"
      "\<forall>a. objects v' a = (if a \<in> set ?rem then None else objects w a)"
      "\<forall>a. opacity v' a = (if a \<in> set ?rem then None else opacity w a)"
      "nextAddress v' = nextAddress w" "incompletePaths v' = incompletePaths w"
    by blast
  have mem: "a \<in> set ?rem \<longleftrightarrow>
      a \<in> snd ` set (pathVisualizations v)
        \<and> (\<exists>d. idleOf cfg current v a = Some d \<and> d > fadeOutTime cfg)" for a
    by force
  have "refreshDisplay cfg current v = Inr v'"
    using pos w(1) v'(1) by (simp add: refreshDisplay_def)
  moreover have "pathVisualizations v' =
              filter (\<lambda>e. \<not> ?expired e) (pathVisualizations v)"
    unfolding v'(2) w(3) by (rule filter_cong[OF refl]) (simp only: mem, force)
  moreover have "\<forall>a. objects v' a =
                (if a \<in> snd ` set (pathVisualizations v)
                      \<and> (\<exists>d. idleOf cfg current v a = Some d \<and> d > fadeOutTime cfg)
                 then None else objects v a)"
    using v'(3)[unfolded mem w(2)] by blast
  moreover have "\<forall>a. a \<in> snd ` set (pathVisualizations v) \<longrightarrow>
                (\<forall>d. idleOf cfg current v a = Some d \<longrightarrow> d \<le> fadeOutTime cfg \<longrightarrow>
                   opacity v' a = Some (1 - d / fadeOutTime cfg))"
    using v'(4)[unfolded mem] w(6) by auto
  moreover have "nextAddress v' = nextAddress v" "incompletePaths v' = incompletePaths v"
    using v'(5,6) w(4,5) by simp_all
  ultimately show ?thesis by blast
qed

lemma wellFormed_refreshDisplay:
  assumes "wellFormed v" "refreshDisplay cfg current v = Inr v'"
    "validFadeOutMode (fadeOutMode cfg)"
  shows "wellFormed v'"
proof (cases "fadeOutTime cfg > 0")
  case False
  with assms show ?thesis by (simp add: refreshDisplay_def)
next
  case True
  from refreshDisplay_result[OF assms(1,3) True, of current] assms(2)
  have "pathVisualizations v' =
              filter (\<lambda>e. \<not> (\<exists>d. idleOf cfg current v (snd e) = Some d \<and> d > fadeOutTime cfg))
                (pathVisualizations v)"
     and "\<forall>a. objects v' a =
                (if a \<in> snd ` set (pathVisualizations v)
                      \<and> (\<exists>d. idleOf cfg current v a = Some d \<and> d > fadeOutTime cfg)
                 then None else objects v a)"
     and "nextAddress v' = nextAddress v"
    by auto
  with assms(1) show ?thesis
    by (auto simp: wellFormed_def distinct_map_filter)
qed





end
